theory Spec2Isabelle
  imports Main
begin

section \<open>Python values, exceptions and the interpreter\<close>

text \<open>
  The values that cross the bridge. \<open>PFloat\<close> carries a binary float as mantissa and
  exponent; how Python prints it is a parameter (\<open>py_float_str\<close>). \<open>PFun\<close> is a
  callable, named by its source text. The model follows the Python 3 branch of the
  source (\<open>IS_PYTHON3\<close>): \<open>basestring = str\<close>, \<open>num_types = (int, float)\<close>.
\<close>

datatype pyval =
    PNone
  | PBool bool
  | PInt int
  | PFloat int int
  | PStr string
  | PList "pyval list"
  | PDict "(pyval \<times> pyval) list"
  | PFun string
  | PModule string

text \<open>
  An exception object is its class and its message. \<open>ErrorResponse\<close> is the structured
  error of the RPC layer: it carries a trace, that is the frames of a traceback and the
  exception they lead to. An exception in flight travels with its traceback: the frames
  it has left so far, outermost first.
\<close>

type_synonym frame = string

datatype pyexn =
    Exn string string
  | ErrorResponse "frame list" pyexn

type_synonym raised = "pyexn \<times> frame list"

type_synonym namespace = "string \<rightharpoonup> pyval"

text \<open>
  Python's \<open>exec\<close>, \<open>eval\<close> and the call of a value are the language's own: they
  are parameters of the model. \<open>exec\<close> and \<open>eval\<close> run against a namespace and
  return it as the code left it, together with the exception raised (if any, with the
  frames of the user's code it came through) or the value. \<open>compile\<close> only accepts or
  rejects a source text. The call of the per-line function is taken to have no effect on
  the namespace or the buffer. \<open>py_is_Exception\<close> is \<open>isinstance(e, Exception)\<close>, what
  \<open>except Exception\<close> tests: it is false of \<open>SystemExit\<close>, \<open>KeyboardInterrupt\<close>,
  \<open>GeneratorExit\<close> and of every class that user code derives from \<open>BaseException\<close>
  alone.
\<close>

record interp =
  py_exec :: "string \<Rightarrow> namespace \<Rightarrow> namespace \<times> raised option"
  py_eval :: "string \<Rightarrow> namespace \<Rightarrow> namespace \<times> (raised + pyval)"
  py_compile :: "string \<Rightarrow> string \<Rightarrow> raised option"
  py_call :: "pyval \<Rightarrow> string \<Rightarrow> int \<Rightarrow> raised + pyval"
  py_float_str :: "int \<Rightarrow> int \<Rightarrow> string"
  py_is_Exception :: "pyexn \<Rightarrow> bool"

section \<open>The host's buffer\<close>

text \<open>
  Every remote call to the buffer API and every call of the per-line function is
  recorded, in order, in a log beside the buffer's lines.
\<close>

datatype event =
    GetLines int int
  | SetLines int int "string list"
  | Call string int

record nvim =
  buf :: "string list"
  log :: "event list"

definition index_error :: raised where
  "index_error = (Exn ''NvimError'' ''Index out of bounds'', [])"

text \<open>
  Modelled from the spec: the host's buffer API (\<open>nvim.current.buffer.api.get_lines\<close>,
  the remote call \<open>nvim_buf_get_lines\<close>) is not under src/. The spec: "bulk-read lines
  [a,b) from active buffer". The source passes \<open>strict_indexing = True\<close>: an index outside
  the buffer is an error. Indices are 0-based.
\<close>

definition get_lines :: "nvim \<Rightarrow> int \<Rightarrow> int \<Rightarrow> (raised + string list) \<times> nvim" where
  "get_lines nv a b =
     (let nv' = nv\<lparr>log := log nv @ [GetLines a b]\<rparr> in
      if 0 \<le> a \<and> a \<le> b \<and> b \<le> int (length (buf nv))
      then (Inr (take (nat (b - a)) (drop (nat a) (buf nv))), nv')
      else (Inl index_error, nv'))"

text \<open>
  Modelled from the spec: the host's buffer API (\<open>nvim.current.buffer.api.set_lines\<close>,
  the remote call \<open>nvim_buf_set_lines\<close>) is not under src/. The spec: "bulk-write/replace
  lines [a,b) in active buffer": the lines with 0-based index in \<open>[a, b)\<close> are replaced
  by the given lines, whatever their number. With \<open>strict_indexing = True\<close> an index
  outside the buffer is an error and the buffer is left as it is.
\<close>

definition set_lines :: "nvim \<Rightarrow> int \<Rightarrow> int \<Rightarrow> string list \<Rightarrow> (raised + unit) \<times> nvim" where
  "set_lines nv a b repl =
     (let nv' = nv\<lparr>log := log nv @ [SetLines a b repl]\<rparr> in
      if 0 \<le> a \<and> a \<le> b \<and> b \<le> int (length (buf nv))
      then (Inr (), nv'\<lparr>buf := take (nat a) (buf nv) @ repl @ drop (nat b) (buf nv)\<rparr>)
      else (Inl index_error, nv'))"

section \<open>ScriptHost\<close>

record script_host =
  module_dict :: namespace
  current_range :: "(int \<times> int) option"
  host :: nvim

text \<open>\<open>ScriptHost._set_current_range\<close>: the range of the request replaces the last one.\<close>

definition set_current_range :: "script_host \<Rightarrow> int \<Rightarrow> int \<Rightarrow> script_host" where
  "set_current_range s start stop = s\<lparr>current_range := Some (start, stop)\<rparr>"

subsection \<open>python_do_range\<close>

definition fname :: string where
  "fname = ''_vim_pydo''"

definition function_def :: "string \<Rightarrow> string" where
  "function_def code = ''def '' @ fname @ ''(line, linenr):'' @ [CHR 0x0A] @ '' '' @ code"

text \<open>\<open>result.__class__.__name__\<close>\<close>

fun class_name :: "pyval \<Rightarrow> string" where
  "class_name PNone = ''NoneType''"
| "class_name (PBool _) = ''bool''"
| "class_name (PInt _) = ''int''"
| "class_name (PFloat _ _) = ''float''"
| "class_name (PStr _) = ''str''"
| "class_name (PList _) = ''list''"
| "class_name (PDict _) = ''dict''"
| "class_name (PFun _) = ''function''"
| "class_name (PModule _) = ''module''"

definition pydo_type_error :: "pyval \<Rightarrow> raised" where
  "pydo_type_error result =
     (Exn ''TypeError'' (''pydo should return a string or None, found '' @ class_name result @ '' instead''), [])"

text \<open>
  The \<open>for i, line in enumerate(lines)\<close> loop of one batch. Its state is the write cursor
  \<open>sstart\<close>, the pending run \<open>newlines\<close>, the line number \<open>linenr\<close> and the host. It
  ends with \<open>Inl e\<close> when a call of the function or of the buffer API raises \<open>e\<close> (which
  leaves \<open>python_do_range\<close> at once), and otherwise with the \<open>exception\<close> variable (set
  by the \<open>break\<close> of the type error), the cursor and the pending run.
\<close>

fun for_lines ::
  "(string \<Rightarrow> int \<Rightarrow> raised + pyval) \<Rightarrow> string list \<Rightarrow> int \<Rightarrow> string list \<Rightarrow> int \<Rightarrow> nvim
     \<Rightarrow> (raised + raised option \<times> int \<times> string list) \<times> nvim" where
  "for_lines function [] sstart newlines linenr nv = (Inr (None, sstart, newlines), nv)"
| "for_lines function (line # rest) sstart newlines linenr nv =
     (let nv0 = nv\<lparr>log := log nv @ [Call line linenr]\<rparr> in
      case function line linenr of
        Inl e \<Rightarrow> (Inl e, nv0)
      | Inr PNone \<Rightarrow>
          (if newlines \<noteq> []
           then (case set_lines nv0 sstart (sstart + int (length newlines) - 1) newlines of
                   (Inl e, nv1) \<Rightarrow> (Inl e, nv1)
                 | (Inr _, nv1) \<Rightarrow>
                     for_lines function rest (sstart + int (length newlines) + 1) [] (linenr + 1) nv1)
           else for_lines function rest (sstart + int (length newlines) + 1) [] (linenr + 1) nv0)
      | Inr (PStr result) \<Rightarrow> for_lines function rest sstart (newlines @ [result]) (linenr + 1) nv0
      | Inr result \<Rightarrow> (Inr (Some (pydo_type_error result), sstart, newlines), nv0))"

text \<open>
  The \<open>while start < stop\<close> loop: one batch of at most 5000 lines per turn. \<open>start\<close> is
  already 0-based here.
\<close>

function range_loop ::
  "(string \<Rightarrow> int \<Rightarrow> raised + pyval) \<Rightarrow> int \<Rightarrow> int \<Rightarrow> nvim \<Rightarrow> (raised + unit) \<times> nvim" where
  "range_loop function start stop nv =
     (if start < stop then
        (let sstart = start; sstop = min (start + 5000) stop in
         case get_lines nv sstart sstop of
           (Inl e, nv1) \<Rightarrow> (Inl e, nv1)
         | (Inr lines, nv1) \<Rightarrow>
             (case for_lines function lines sstart [] (sstart + 1) nv1 of
                (Inl e, nv2) \<Rightarrow> (Inl e, nv2)
              | (Inr (exception, sstart', newlines), nv2) \<Rightarrow>
                  (case (if newlines \<noteq> []
                         then set_lines nv2 sstart' (sstart' + int (length newlines)) newlines
                         else (Inr (), nv2)) of
                     (Inl e, nv3) \<Rightarrow> (Inl e, nv3)
                   | (Inr _, nv3) \<Rightarrow>
                       (case exception of
                          Some e \<Rightarrow> (Inl e, nv3)
                        | None \<Rightarrow> range_loop function sstop stop nv3))))
      else (Inr (), nv))"
  by pat_completeness auto
termination
  by (relation "measure (\<lambda>(function, start, stop, nv). nat (stop - start))") auto

text \<open>
  \<open>ScriptHost.python_do_range\<close>. The namespace keeps what \<open>exec\<close> left in it on every
  path; \<open>del\<close> is reached only when the loop ends without an exception.
\<close>

definition python_do_range ::
  "interp \<Rightarrow> script_host \<Rightarrow> int \<Rightarrow> int \<Rightarrow> string \<Rightarrow> (raised + unit) \<times> script_host" where
  "python_do_range I s start stop code =
     (let s1 = set_current_range s start stop;
          start' = start - 1;
          (ns, raised) = py_exec I (function_def code) (module_dict s1);
          s2 = s1\<lparr>module_dict := ns\<rparr>
      in case raised of
           Some e \<Rightarrow> (Inl e, s2)
         | None \<Rightarrow>
             (case module_dict s2 fname of
                None \<Rightarrow> (Inl (Exn ''KeyError'' fname, []), s2)
              | Some function \<Rightarrow>
                  (case range_loop (py_call I function) start' stop (host s2) of
                     (Inl e, nv) \<Rightarrow> (Inl e, s2\<lparr>host := nv\<rparr>)
                   | (Inr _, nv) \<Rightarrow>
                       (case module_dict s2 fname of
                          None \<Rightarrow> (Inl (Exn ''KeyError'' fname, []), s2\<lparr>host := nv\<rparr>)
                        | Some _ \<Rightarrow>
                            (Inr (), s2\<lparr>host := nv, module_dict := (module_dict s2)(fname := None)\<rparr>)))))"

subsection \<open>python_execute, python_execute_file, python_eval\<close>






definition python_eval ::
  "interp \<Rightarrow> script_host \<Rightarrow> string \<Rightarrow> (raised + pyval) \<times> script_host" where
  "python_eval I s expr =
     (let (ns, res) = py_eval I expr (module_dict s) in (res, s\<lparr>module_dict := ns\<rparr>))"

text \<open>
  \<open>ScriptHost.__init__\<close>: the namespace is the dictionary of a new module
  \<open>__main__\<close>, in which \<open>import sys\<close> is executed. (The import hook and the stream
  redirection of \<open>setup\<close> are outside the model.)
\<close>

definition new_module :: "string \<Rightarrow> namespace" where
  "new_module name =
     [''__name__'' \<mapsto> PStr name, ''__doc__'' \<mapsto> PNone, ''__package__'' \<mapsto> PNone,
      ''__loader__'' \<mapsto> PNone, ''__spec__'' \<mapsto> PNone]"


subsection \<open>The remote operations\<close>

text \<open>
  The four operations that \<open>rpc_export\<close> registers, as requests; \<open>handle_request\<close> is
  the instance after one request and \<open>handle_requests\<close> the instance after a sequence of
  them, each running against the instance the last one left.
\<close>

datatype request =
    Execute string int int
  | ExecuteFile string int int
  | Evaluate string
  | ApplyRange int int string




section \<open>LegacyVim.eval\<close>

function digits10 :: "nat \<Rightarrow> string" where
  "digits10 n = (if n < 10 then [char_of (48 + n)] else digits10 (n div 10) @ [char_of (48 + n mod 10)])"
  by pat_completeness auto
termination
  by (relation "measure id") auto

definition str_int :: "int \<Rightarrow> string" where
  "str_int i = (if i < 0 then CHR ''-'' # digits10 (nat (- i)) else digits10 (nat i))"

text \<open>\<open>isinstance(obj, num_types)\<close>: \<open>bool\<close> is a subclass of \<open>int\<close>.\<close>

fun isinstance_num :: "pyval \<Rightarrow> bool" where
  "isinstance_num (PBool _) = True"
| "isinstance_num (PInt _) = True"
| "isinstance_num (PFloat _ _) = True"
| "isinstance_num _ = False"

text \<open>\<open>str(obj)\<close>, for the values \<open>num_to_str\<close> applies it to.\<close>

fun py_str :: "interp \<Rightarrow> pyval \<Rightarrow> string" where
  "py_str I (PBool b) = (if b then ''True'' else ''False'')"
| "py_str I (PInt i) = str_int i"
| "py_str I (PFloat m e) = py_float_str I m e"
| "py_str I (PStr s) = s"
| "py_str I _ = []"

definition num_to_str :: "interp \<Rightarrow> pyval \<Rightarrow> pyval" where
  "num_to_str I obj = (if isinstance_num obj then PStr (py_str I obj) else obj)"

text \<open>
  Modelled from the spec: \<open>walk\<close> (\<open>neovim.api\<close>) is not under src/. The spec: numeric
  values are coerced, "all other structures pass through unchanged, recursively": the
  function is applied to every value that is not a list or a dictionary, and a list or a
  dictionary is rebuilt from its walked members (keys and values).
\<close>

primrec walk :: "(pyval \<Rightarrow> pyval) \<Rightarrow> pyval \<Rightarrow> pyval" where
  "walk fn PNone = fn PNone"
| "walk fn (PBool b) = fn (PBool b)"
| "walk fn (PInt i) = fn (PInt i)"
| "walk fn (PFloat m e) = fn (PFloat m e)"
| "walk fn (PStr s) = fn (PStr s)"
| "walk fn (PList xs) = PList (map (walk fn) xs)"
| "walk fn (PDict kvs) = PDict (map (map_prod (walk fn) (walk fn)) kvs)"
| "walk fn (PFun c) = fn (PFun c)"
| "walk fn (PModule m) = fn (PModule m)"

text \<open>\<open>LegacyVim.eval\<close>; \<open>request\<close> is the remote call to the host.\<close>

definition LegacyVim_eval ::
  "interp \<Rightarrow> (string \<Rightarrow> string \<Rightarrow> raised + pyval) \<Rightarrow> string \<Rightarrow> raised + pyval" where
  "LegacyVim_eval I request expr =
     (case request ''vim_eval'' expr of
        Inl r \<Rightarrow> Inl r
      | Inr obj \<Rightarrow> Inr (walk (num_to_str I) obj))"

text \<open>The values a walked value is made of, left to right.\<close>

primrec leaves :: "pyval \<Rightarrow> pyval list" where
  "leaves PNone = [PNone]"
| "leaves (PBool b) = [PBool b]"
| "leaves (PInt i) = [PInt i]"
| "leaves (PFloat m e) = [PFloat m e]"
| "leaves (PStr s) = [PStr s]"
| "leaves (PList xs) = concat (map leaves xs)"
| "leaves (PDict kvs) = concat (map (case_prod (@)) (map (map_prod leaves leaves) kvs))"
| "leaves (PFun c) = [PFun c]"
| "leaves (PModule m) = [PModule m]"

section \<open>The import hook\<close>

text \<open>
  What the resolver asks of its surroundings: the host's runtime paths
  (\<open>nvim.list_runtime_paths()\<close>), \<open>os.path.exists\<close>, the search of
  \<open>imp.find_module(name, path)\<close> (\<open>None\<close> when it raises \<open>ImportError\<close>, otherwise the
  triple of file, path name and description it returns) and the standard library's
  \<open>PathFinder.find_spec\<close> (\<open>None\<close> when it finds no module).
\<close>

type_synonym fmr = "string \<times> string \<times> string"

record environ =
  list_runtime_paths :: "string list"
  path_exists :: "string \<Rightarrow> bool"
  imp_search :: "string \<Rightarrow> string list \<Rightarrow> fmr option"
  PathFinder_find_spec :: "string \<Rightarrow> string list \<Rightarrow> string option"

text \<open>\<open>os.path.join(path, name)\<close> for a relative, non-empty \<open>name\<close> (POSIX).\<close>

definition os_path_join :: "string \<Rightarrow> string \<Rightarrow> string" where
  "os_path_join path name =
     (if path = [] \<or> last path = CHR ''/'' then path @ name else path @ ''/'' @ name)"

fun discover_runtime_directories :: "(string \<Rightarrow> bool) \<Rightarrow> string list \<Rightarrow> string list" where
  "discover_runtime_directories ex [] = []"
| "discover_runtime_directories ex (path # rest) =
     (if \<not> ex path then discover_runtime_directories ex rest
      else
        (let path1 = os_path_join path ''pythonx'';
             path2 = os_path_join path ''python3''
         in (if ex path1 then [path1] else []) @ (if ex path2 then [path2] else [])
            @ discover_runtime_directories ex rest))"

definition get_paths :: "environ \<Rightarrow> string list" where
  "get_paths env = discover_runtime_directories (path_exists env) (list_runtime_paths env)"

text \<open>\<open>str.find\<close>: the index of the first occurrence, or -1.\<close>

fun str_find :: "char \<Rightarrow> string \<Rightarrow> int" where
  "str_find c [] = - 1"
| "str_find c (x # xs) = (if x = c then 0 else (let i = str_find c xs in if i < 0 then - 1 else i + 1))"

text \<open>The part of a dotted name before its first dot (the whole name when it has none).\<close>

definition first_component :: "string \<Rightarrow> string" where
  "first_component fullname = takeWhile (\<lambda>c. c \<noteq> CHR ''.'') fullname"

definition import_error :: "string \<Rightarrow> raised" where
  "import_error name = (Exn ''ImportError'' (''No module named '' @ name), [])"

definition imp_find_module :: "environ \<Rightarrow> string \<Rightarrow> string list \<Rightarrow> raised + fmr" where
  "imp_find_module env name path =
     (case imp_search env name path of None \<Rightarrow> Inl (import_error name) | Some r \<Rightarrow> Inr r)"

text \<open>
  The call \<open>imp.find_module(fullname[:-len(oldtail)] + name, *fmr)\<close> of line 190: \<open>fmr\<close>
  is the triple that \<open>imp.find_module\<close> returned, so the call passes four positional
  arguments to a function that takes a name and a path. Python raises \<open>TypeError\<close>
  before any search.
\<close>

definition imp_find_module_star :: "environ \<Rightarrow> string \<Rightarrow> fmr \<Rightarrow> raised + fmr" where
  "imp_find_module_star env name r =
     Inl (Exn ''TypeError'' ''find_module() takes from 1 to 2 positional arguments but 4 were given'', [])"

text \<open>
  \<open>_find_module\<close>. In the dotted branch the second call never returns, so the recursive
  call after it (on \<open>module.__path__\<close>, which a triple does not have) is never reached.
\<close>

definition find_module_rec :: "environ \<Rightarrow> string \<Rightarrow> string \<Rightarrow> string list \<Rightarrow> raised + fmr" where
  "find_module_rec env fullname oldtail path =
     (let idx = str_find CHR ''.'' oldtail in
      if idx > 0 then
        (let name = take (nat idx) oldtail;
             tail = drop (nat (idx + 1)) oldtail
         in case imp_find_module env name path of
              Inl r \<Rightarrow> Inl r
            | Inr r \<Rightarrow>
                (case imp_find_module_star env
                        (take (length fullname - length oldtail) fullname @ name) r of
                   Inl r' \<Rightarrow> Inl r'
                 | Inr module \<Rightarrow> Inl (Exn ''AttributeError'' ''__path__'', [])))
      else imp_find_module env fullname path)"

datatype loader = VimModuleLoader fmr

text \<open>\<open>except ImportError\<close> matches the class and its subclass.\<close>

fun is_ImportError :: "pyexn \<Rightarrow> bool" where
  "is_ImportError (Exn c m) = (c = ''ImportError'' \<or> c = ''ModuleNotFoundError'')"
| "is_ImportError (ErrorResponse fs e) = False"

text \<open>\<open>path or _get_paths()\<close>: \<open>None\<close> and the empty list are false.\<close>

definition path_or_get_paths :: "environ \<Rightarrow> string list option \<Rightarrow> string list" where
  "path_or_get_paths env path =
     (case path of None \<Rightarrow> get_paths env | Some p \<Rightarrow> if p = [] then get_paths env else p)"

text \<open>\<open>VimPathFinder.find_module\<close> (Python 2.7 and 3.3).\<close>

definition find_module :: "environ \<Rightarrow> string \<Rightarrow> string list option \<Rightarrow> raised + loader option" where
  "find_module env fullname path =
     (case find_module_rec env fullname fullname (path_or_get_paths env path) of
        Inr r \<Rightarrow> Inr (Some (VimModuleLoader r))
      | Inl r \<Rightarrow> if is_ImportError (fst r) then Inr None else Inl r)"

text \<open>\<open>VimPathFinder.find_spec\<close> (Python 3.4 and later).\<close>

definition find_spec :: "environ \<Rightarrow> string \<Rightarrow> string list option \<Rightarrow> raised + string option" where
  "find_spec env fullname path = Inr (PathFinder_find_spec env fullname (path_or_get_paths env path))"

section \<open>An instance of the interpreter\<close>

text \<open>
  A fragment of Python, enough to run the operations on concrete inputs: an expression is
  a decimal literal or a name; a statement is \<open>import m\<close>, \<open>def f(...): ...\<close> (which
  binds \<open>f\<close> to a function), \<open>raise C\<close>, an assignment \<open>name=expression\<close>, or an
  expression. The per-line function is given by what it returns. Of the built-in
  exception classes all but four are subclasses of \<open>Exception\<close>. A float that is a whole
  number (below \<open>10^16\<close>) prints as the integer followed by \<open>.0\<close>; other floats are
  not printed by this instance.
\<close>

definition decimal_value :: "string \<Rightarrow> nat" where
  "decimal_value ds = foldl (\<lambda>a c. 10 * a + (of_char c - 48)) 0 ds"

definition is_digit :: "char \<Rightarrow> bool" where
  "is_digit c = (48 \<le> (of_char c :: nat) \<and> (of_char c :: nat) \<le> 57)"

text \<open>
  Reading decimal text back, strictly: an optional minus sign, then one digit or more and
  nothing else.
\<close>

definition parse_nat :: "string \<Rightarrow> nat option" where
  "parse_nat ds = (if ds \<noteq> [] \<and> list_all is_digit ds then Some (decimal_value ds) else None)"

definition parse_int :: "string \<Rightarrow> int option" where
  "parse_int s =
     (case s of
        [] \<Rightarrow> None
      | c # ds \<Rightarrow>
          if c = CHR ''-'' then map_option (\<lambda>n. - int n) (parse_nat ds)
          else map_option int (parse_nat s))"

definition name_error :: "string \<Rightarrow> raised" where
  "name_error n = (Exn ''NameError'' (''name '' @ n @ '' is not defined''), [''<string>''])"

definition mini_eval :: "string \<Rightarrow> namespace \<Rightarrow> namespace \<times> (raised + pyval)" where
  "mini_eval expr ns =
     (if expr \<noteq> [] \<and> list_all is_digit expr
      then (ns, Inr (PInt (int (decimal_value expr))))
      else (case ns expr of Some v \<Rightarrow> (ns, Inr v) | None \<Rightarrow> (ns, Inl (name_error expr))))"

definition mini_exec :: "string \<Rightarrow> namespace \<Rightarrow> namespace \<times> raised option" where
  "mini_exec src ns =
     (if take 7 src = ''import '' then (ns(drop 7 src \<mapsto> PModule (drop 7 src)), None)
      else if take 4 src = ''def ''
      then (ns(takeWhile (\<lambda>c. c \<noteq> CHR ''('') (drop 4 src) \<mapsto> PFun src), None)
      else if take 6 src = ''raise '' then (ns, Some (Exn (drop 6 src) [], [''<string>'']))
      else if CHR ''='' \<in> set src
      then (let name = takeWhile (\<lambda>c. c \<noteq> CHR ''='') src;
                rhs = drop (length name + 1) src
            in case snd (mini_eval rhs ns) of
                 Inl r \<Rightarrow> (ns, Some r)
               | Inr v \<Rightarrow> (ns(name \<mapsto> v), None))
      else (case snd (mini_eval src ns) of Inl r \<Rightarrow> (ns, Some r) | Inr v \<Rightarrow> (ns, None)))"

definition mini_call :: "(string \<Rightarrow> int \<Rightarrow> raised + pyval) \<Rightarrow> pyval \<Rightarrow> string \<Rightarrow> int \<Rightarrow> raised + pyval" where
  "mini_call f v line linenr =
     (case v of
        PFun c \<Rightarrow> f line linenr
      | _ \<Rightarrow> Inl (Exn ''TypeError'' (class_name v @ '' object is not callable''), []))"

fun mini_is_Exception :: "pyexn \<Rightarrow> bool" where
  "mini_is_Exception (Exn c m)
     = (c \<noteq> ''BaseException'' \<and> c \<noteq> ''SystemExit'' \<and> c \<noteq> ''KeyboardInterrupt''
        \<and> c \<noteq> ''GeneratorExit'')"
| "mini_is_Exception (ErrorResponse fs e) = True"

definition mini_float_str :: "int \<Rightarrow> int \<Rightarrow> string" where
  "mini_float_str m e = (if 0 \<le> e then str_int (m * 2 ^ nat e) @ ''.0'' else [])"

definition mini :: "(string \<Rightarrow> int \<Rightarrow> raised + pyval) \<Rightarrow> interp" where
  "mini f = \<lparr>py_exec = mini_exec, py_eval = mini_eval, py_compile = (\<lambda>src file. None),
             py_call = mini_call f, py_float_str = mini_float_str,
             py_is_Exception = mini_is_Exception\<rparr>"

text \<open>
  Per-line functions: the one that returns \<open>None\<close> for line \<open>k\<close> and the line itself
  otherwise; the one that appends a mark to every line; the one that returns a number.
\<close>

definition none_at :: "int \<Rightarrow> string \<Rightarrow> int \<Rightarrow> raised + pyval" where
  "none_at k line linenr = (if linenr = k then Inr PNone else Inr (PStr line))"

definition mark :: "string \<Rightarrow> int \<Rightarrow> raised + pyval" where
  "mark line linenr = Inr (PStr (line @ ''!''))"

definition number :: "string \<Rightarrow> int \<Rightarrow> raised + pyval" where
  "number line linenr = Inr (PInt linenr)"

definition bridge :: "string list \<Rightarrow> script_host" where
  "bridge lines =
     \<lparr>module_dict = (new_module ''__main__'')(''sys'' \<mapsto> PModule ''sys''),
      current_range = None, host = \<lparr>buf = lines, log = []\<rparr>\<rparr>"

text \<open>
  A per-line function that raises, a file system with one readable text, a host that
  answers every request with one value, and surroundings with one runtime directory
  that holds the package \<open>pkg\<close> and nothing else.
\<close>

definition failing :: "string \<Rightarrow> int \<Rightarrow> raised + pyval" where
  "failing line linenr = Inl (Exn ''ValueError'' line, [''_vim_pydo''])"


definition reply_with :: "pyval \<Rightarrow> string \<Rightarrow> string \<Rightarrow> raised + pyval" where
  "reply_with v method arg = Inr v"

definition sample_env :: environ where
  "sample_env =
     \<lparr>list_runtime_paths = [''/rt'', ''/gone''],
      path_exists = (\<lambda>p. p = ''/rt'' \<or> p = ''/rt/pythonx''),
      imp_search = (\<lambda>name path. if name = ''pkg'' \<and> ''/rt/pythonx'' \<in> set path
                                  then Some ('''', ''/rt/pythonx/pkg'', ''package'') else None),
      PathFinder_find_spec = (\<lambda>name path. if name = ''pkg'' \<and> ''/rt/pythonx'' \<in> set path
                                  then Some ''/rt/pythonx/pkg/__init__.py'' else None)\<rparr>"

text \<open>
  A buffer of 5001 lines, one more than a batch: the lines 5000 and 5001 are \<open>y\<close> and
  \<open>z\<close>.
\<close>

definition long_buffer :: "string list" where
  "long_buffer = ''a'' # replicate 4998 ''b'' @ [''y'', ''z'']"

section \<open>Vocabulary for the statements about python_do_range\<close>

text \<open>
  The lines of a batch with their line numbers; the text of a result that is a string;
  the lines \<open>[a, b)\<close> of a buffer (0-based); the texts a function returns for numbered
  lines; and, for an event of the log, the lines it reads, the lines it writes and the
  call of the function it records.
\<close>

fun numbered :: "string list \<Rightarrow> int \<Rightarrow> (string \<times> int) list" where
  "numbered [] n = []"
| "numbered (l # ls) n = (l, n) # numbered ls (n + 1)"

fun out_text :: "raised + pyval \<Rightarrow> string" where
  "out_text (Inr (PStr r)) = r"
| "out_text _ = []"

fun is_text :: "raised + pyval \<Rightarrow> bool" where
  "is_text (Inr (PStr r)) = True"
| "is_text _ = False"

definition slice :: "string list \<Rightarrow> int \<Rightarrow> int \<Rightarrow> string list" where
  "slice xs a b = take (nat (b - a)) (drop (nat a) xs)"

definition texts :: "(string \<Rightarrow> int \<Rightarrow> raised + pyval) \<Rightarrow> string list \<Rightarrow> int \<Rightarrow> string list" where
  "texts f ls n = map (\<lambda>(l, k). out_text (f l k)) (numbered ls n)"

definition call_events :: "string list \<Rightarrow> int \<Rightarrow> event list" where
  "call_events ls n = map (\<lambda>(l, k). Call l k) (numbered ls n)"

fun lines_read :: "event \<Rightarrow> int set" where
  "lines_read (GetLines a b) = {a..<b}"
| "lines_read _ = {}"

fun lines_written :: "event \<Rightarrow> int set" where
  "lines_written (SetLines a b repl) = {a..<b}"
| "lines_written _ = {}"

fun call_of :: "event \<Rightarrow> (string \<times> int) list" where
  "call_of (Call l k) = [(l, k)]"
| "call_of _ = []"

definition calls :: "event list \<Rightarrow> (string \<times> int) list" where
  "calls evs = concat (map call_of evs)"

text \<open>The numbers \<open>n, n + 1, \<dots>\<close> (\<open>m\<close> of them), and the line numbers of the calls in a log.\<close>

definition numbers_from :: "int \<Rightarrow> nat \<Rightarrow> int list" where
  "numbers_from n m = map (\<lambda>i. n + int i) [0..<m]"

definition call_numbers :: "nvim \<Rightarrow> int list" where
  "call_numbers nv = map snd (calls (log nv))"

section \<open>Properties of python_do_range on a range without lines\<close>



lemma range_loop_done: "\<not> start < stop \<Longrightarrow> range_loop function start stop nv = (Inr (), nv)"
  by (subst range_loop.simps) simp

lemma mini_exec_def_binds:
  "py_exec (mini f) (function_def code) ns = (ns(fname \<mapsto> PFun (function_def code)), None)"
  by (simp add: mini_def mini_exec_def function_def_def fname_def)

text \<open>
  Claim C9. When \<open>stop \<le> start - 1\<close>, \<open>python_do_range\<close> makes no call to the buffer
  API and no call of the function: the host (its lines and its log) is as before. The
  function definition is executed all the same, and when it binds the name the call
  returns normally with the name deleted from the namespace the definition left.
\<close>

theorem degenerate_range_no_io:
  assumes "stop \<le> start - 1"
    and "py_exec I (function_def code) (module_dict s) = (ns, None)"
    and "ns fname = Some fv"
  shows "python_do_range I s start stop code =
           (Inr (), s\<lparr>current_range := Some (start, stop), module_dict := ns(fname := None)\<rparr>)"
proof -
  have "\<not> start - 1 < stop" using assms(1) by simp
  then have "range_loop (py_call I fv) (start - 1) stop (host s) = (Inr (), host s)"
    by (rule range_loop_done)
  then show ?thesis
    using assms(2,3) by (simp add: python_do_range_def set_current_range_def)
qed

theorem degenerate_range_no_io_witness:
  "(1::int) \<le> 3 - 1
   \<and> fst (python_do_range (mini mark) (bridge [''a'', ''b'']) 3 1 ''return line'') = Inr ()
   \<and> host (snd (python_do_range (mini mark) (bridge [''a'', ''b'']) 3 1 ''return line''))
        = \<lparr>buf = [''a'', ''b''], log = []\<rparr>
   \<and> module_dict (snd (python_do_range (mini mark) (bridge [''a'', ''b'']) 3 1 ''return line'')) fname = None"
  using degenerate_range_no_io [of 1 3 "mini mark" "''return line''" "bridge [''a'', ''b'']",
      OF _ mini_exec_def_binds]
  by (simp add: bridge_def)

section \<open>The temporary function after a fatal error\<close>

text \<open>
  Claim C3. The claim asks that \<open>_vim_pydo\<close> be absent from the namespace after every
  call, also one that raises. On the one-line range 1..1 with a function that returns a
  number, \<open>python_do_range\<close> raises the type error and the name is still bound: the
  \<open>del\<close> statement stands after the loop and the \<open>raise\<close> leaves before it.
\<close>

theorem pydo_stays_defined_after_type_error:
  "fst (python_do_range (mini number) (bridge [''a'', ''b'', ''c'']) 1 1 ''return linenr'')
     = Inl (pydo_type_error (PInt 1))
   \<and> module_dict (snd (python_do_range (mini number) (bridge [''a'', ''b'', ''c'']) 1 1 ''return linenr'')) fname
     = Some (PFun (function_def ''return linenr''))"
  by code_simp

section \<open>What python_eval returns\<close>

lemma num_to_str_changes_number: "isinstance_num v \<Longrightarrow> num_to_str I v \<noteq> v"
  by (cases v) (simp_all add: num_to_str_def)

lemma mini_eval_literal: "py_eval (mini f) ''12'' ns = (ns, Inr (PInt 12))"
  by (simp add: mini_def mini_eval_def is_digit_def decimal_value_def)

text \<open>
  Claim C1, as stated, fails: evaluating the literal \<open>1\<close> returns the integer 1 to the
  host, not the text that \<open>walk num_to_str\<close> would make of it.
\<close>

theorem python_eval_number_not_coerced:
  "fst (python_eval (mini mark) (bridge []) ''1'') = Inr (PInt 1)
   \<and> fst (python_eval (mini mark) (bridge []) ''1'') \<noteq> Inr (walk (num_to_str (mini mark)) (PInt 1))"
  by (simp add: python_eval_def mini_def mini_eval_def is_digit_def decimal_value_def bridge_def
      num_to_str_def)

text \<open>
  Claim C1, amended. \<open>python_eval\<close> returns the value of the expression as the
  evaluation in the shared namespace produced it, with no conversion: a numeric value
  reaches the host as a number, never as its coerced text.
\<close>

theorem python_eval_returns_value_unchanged:
  assumes "py_eval I expr (module_dict s) = (ns, Inr v)"
  shows "python_eval I s expr = (Inr v, s\<lparr>module_dict := ns\<rparr>)
         \<and> (isinstance_num v \<longrightarrow> fst (python_eval I s expr) \<noteq> Inr (walk (num_to_str I) v))"
proof -
  have "isinstance_num v \<Longrightarrow> walk (num_to_str I) v = num_to_str I v"
    by (cases v) simp_all
  then show ?thesis
    using assms num_to_str_changes_number [of v I] by (auto simp add: python_eval_def)
qed

theorem python_eval_returns_value_unchanged_witness:
  "python_eval (mini mark) (bridge []) ''12'' = (Inr (PInt 12), bridge [])
   \<and> isinstance_num (PInt 12)
   \<and> fst (python_eval (mini mark) (bridge []) ''12'') \<noteq> Inr (PStr ''12'')"
  using python_eval_returns_value_unchanged [OF mini_eval_literal, of mark "bridge []"]
  by (simp add: bridge_def)

section \<open>num_to_str and LegacyVim.eval\<close>

lemma decimal_value_snoc: "decimal_value (ds @ [c]) = 10 * decimal_value ds + (of_char c - 48)"
  by (simp add: decimal_value_def)

lemma decimal_value_digits10: "decimal_value (digits10 n) = n"
proof (induction n rule: digits10.induct)
  case (1 n)
  show ?case
  proof (cases "n < 10")
    case True
    then show ?thesis by (subst digits10.simps) (simp add: decimal_value_def)
  next
    case False
    have "n mod 10 < 10" by simp
    then have "48 + n mod 10 < 256" by linarith
    then have c: "(of_char (char_of (48 + n mod 10) :: char) :: nat) = 48 + n mod 10"
      by simp
    from False 1 have "decimal_value (digits10 (n div 10)) = n div 10" by simp
    with False c show ?thesis
      by (subst digits10.simps) (simp add: decimal_value_snoc)
  qed
qed

lemma leaves_walk: "leaves (walk (num_to_str I) v) = map (num_to_str I) (leaves v)"
  by (induction v) (auto simp add: map_concat num_to_str_def intro!: arg_cong [where f = concat])

lemma walk_num_to_str_no_number: "x \<in> set (leaves (walk (num_to_str I) v)) \<Longrightarrow> \<not> isinstance_num x"
proof -
  have "\<not> isinstance_num (num_to_str I y)" for y
    by (cases y) (simp_all add: num_to_str_def)
  then show "x \<in> set (leaves (walk (num_to_str I) v)) \<Longrightarrow> \<not> isinstance_num x"
    by (auto simp add: leaves_walk)
qed

lemma digits10_nonempty: "digits10 n \<noteq> []"
  by (subst digits10.simps) (simp del: digits10.simps)

lemma digit_char: "(k :: nat) < 10 \<Longrightarrow> is_digit (char_of (48 + k))"
proof -
  assume "k < 10"
  then have "48 + k < 256" by simp
  then have "(of_char (char_of (48 + k) :: char) :: nat) = 48 + k" by simp
  with \<open>k < 10\<close> show ?thesis by (simp add: is_digit_def)
qed

lemma digits10_digits: "list_all is_digit (digits10 n)"
proof (induction n rule: digits10.induct)
  case (1 n)
  show ?case
  proof (cases "n < 10")
    case True
    then show ?thesis
      by (subst digits10.simps) (simp add: digit_char del: digits10.simps)
  next
    case False
    then have "list_all is_digit (digits10 (n div 10))" using 1 by simp
    moreover have "is_digit (char_of (48 + n mod 10))" by (rule digit_char) simp
    ultimately show ?thesis
      using False by (subst digits10.simps) (simp del: digits10.simps)
  qed
qed

lemma digits10_no_leading_zero: "n \<noteq> 0 \<Longrightarrow> hd (digits10 n) \<noteq> CHR ''0''"
proof (induction n rule: digits10.induct)
  case (1 n)
  show ?case
  proof (cases "n < 10")
    case True
    then have "48 + n < 256" by simp
    then have c: "(of_char (char_of (48 + n) :: char) :: nat) = 48 + n" by simp
    have "char_of (48 + n) \<noteq> CHR ''0''"
    proof
      assume "char_of (48 + n) = CHR ''0''"
      then have "(of_char (char_of (48 + n) :: char) :: nat) = of_char CHR ''0''" by simp
      with c 1(2) show False by simp
    qed
    with True show ?thesis
      by (subst digits10.simps) (simp del: digits10.simps)
  next
    case False
    then have "n div 10 \<noteq> 0" by simp
    with False 1 have "hd (digits10 (n div 10)) \<noteq> CHR ''0''" by simp
    with False show ?thesis
      by (subst digits10.simps) (simp add: digits10_nonempty del: digits10.simps)
  qed
qed

lemma parse_nat_digits10: "parse_nat (digits10 n) = Some n"
  by (simp add: parse_nat_def digits10_nonempty digits10_digits decimal_value_digits10
      del: digits10.simps)

lemma is_digit_not_minus: "is_digit c \<Longrightarrow> c \<noteq> CHR ''-''"
  by (auto simp add: is_digit_def)

lemma parse_int_str_int: "parse_int (str_int i) = Some i"
proof (cases "i < 0")
  case True
  then show ?thesis
    by (simp add: parse_int_def str_int_def parse_nat_digits10 del: digits10.simps)
next
  case False
  obtain c ds where cd: "digits10 (nat i) = c # ds"
    using digits10_nonempty [of "nat i"] by (cases "digits10 (nat i)") auto
  have "is_digit c"
    using digits10_digits [of "nat i"] by (simp only: cd) simp
  then have "c \<noteq> CHR ''-''" by (rule is_digit_not_minus)
  moreover have "parse_nat (c # ds) = Some (nat i)"
    using parse_nat_digits10 [of "nat i"] by (simp only: cd)
  ultimately show ?thesis
    using False by (simp add: parse_int_def str_int_def cd del: digits10.simps)
qed

lemma str_int_shape:
  "str_int 0 = ''0''"
  "0 < i \<Longrightarrow> hd (str_int i) \<noteq> CHR ''0''"
  "i < 0 \<Longrightarrow> hd (str_int i) = CHR ''-'' \<and> hd (tl (str_int i)) \<noteq> CHR ''0''"
proof -
  show "str_int 0 = ''0''" by code_simp
  show "0 < i \<Longrightarrow> hd (str_int i) \<noteq> CHR ''0''"
    using digits10_no_leading_zero [of "nat i"]
    by (simp add: str_int_def del: digits10.simps)
  show "i < 0 \<Longrightarrow> hd (str_int i) = CHR ''-'' \<and> hd (tl (str_int i)) \<noteq> CHR ''0''"
    using digits10_no_leading_zero [of "nat (- i)"]
    by (simp add: str_int_def del: digits10.simps)
qed

text \<open>
  Claim C10. \<open>num_to_str\<close> returns \<open>str(obj)\<close> for every value of a numeric type: for
  an integer its decimal text (an optional minus sign and digits without a leading zero,
  which read back as the integer), for a float the text Python prints for it, for a
  truth value \<open>True\<close> or \<open>False\<close> (\<open>bool\<close> is a subclass of \<open>int\<close>). Every other
  value is returned unchanged. \<open>LegacyVim.eval\<close> walks the host's reply with it: every
  leaf of the result is the conversion of the leaf of the reply at the same place, and no
  numeric leaf is left; an error of the request is passed on. \<open>python_eval\<close> returns
  the value of the evaluation as it is.
\<close>

theorem num_to_str_in_LegacyVim_eval:
  "(isinstance_num obj \<longrightarrow> num_to_str I obj = PStr (py_str I obj))
   \<and> (\<not> isinstance_num obj \<longrightarrow> num_to_str I obj = obj)
   \<and> num_to_str I (PInt i) = PStr (str_int i)
   \<and> parse_int (str_int i) = Some i
   \<and> str_int 0 = ''0''
   \<and> (0 < i \<longrightarrow> hd (str_int i) \<noteq> CHR ''0'')
   \<and> (i < 0 \<longrightarrow> hd (str_int i) = CHR ''-'' \<and> hd (tl (str_int i)) \<noteq> CHR ''0'')
   \<and> num_to_str I (PFloat m e) = PStr (py_float_str I m e)
   \<and> num_to_str I (PBool b) = PStr (if b then ''True'' else ''False'')
   \<and> num_to_str I PNone = PNone
   \<and> num_to_str I (PStr u) = PStr u
   \<and> num_to_str I (PList xs) = PList xs
   \<and> num_to_str I (PDict kvs) = PDict kvs
   \<and> num_to_str I (PFun c) = PFun c
   \<and> num_to_str I (PModule c) = PModule c
   \<and> (request ''vim_eval'' expr = Inr reply \<longrightarrow>
        LegacyVim_eval I request expr = Inr (walk (num_to_str I) reply)
        \<and> leaves (walk (num_to_str I) reply) = map (num_to_str I) (leaves reply)
        \<and> (\<forall>x \<in> set (leaves (walk (num_to_str I) reply)). \<not> isinstance_num x))
   \<and> (request ''vim_eval'' expr = Inl r \<longrightarrow> LegacyVim_eval I request expr = Inl r)
   \<and> (py_eval I expr (module_dict s) = (ns, Inr v) \<longrightarrow> fst (python_eval I s expr) = Inr v)"
proof -
  have conv: "num_to_str I (PInt i) = PStr (str_int i)"
    "num_to_str I (PFloat m e) = PStr (py_float_str I m e)"
    "num_to_str I (PBool b) = PStr (if b then ''True'' else ''False'')"
    by (simp_all add: num_to_str_def del: digits10.simps)
  have same: "num_to_str I PNone = PNone" "num_to_str I (PStr u) = PStr u"
    "num_to_str I (PList xs) = PList xs" "num_to_str I (PDict kvs) = PDict kvs"
    "num_to_str I (PFun c) = PFun c" "num_to_str I (PModule c) = PModule c"
    by (simp_all add: num_to_str_def)
  have inst: "(isinstance_num obj \<longrightarrow> num_to_str I obj = PStr (py_str I obj))
      \<and> (\<not> isinstance_num obj \<longrightarrow> num_to_str I obj = obj)"
    by (simp add: num_to_str_def del: digits10.simps)
  have lv: "request ''vim_eval'' expr = Inr reply \<longrightarrow>
        LegacyVim_eval I request expr = Inr (walk (num_to_str I) reply)
        \<and> leaves (walk (num_to_str I) reply) = map (num_to_str I) (leaves reply)
        \<and> (\<forall>x \<in> set (leaves (walk (num_to_str I) reply)). \<not> isinstance_num x)"
    using walk_num_to_str_no_number [of _ I reply]
    by (auto simp add: LegacyVim_eval_def leaves_walk simp del: digits10.simps)
  have le: "request ''vim_eval'' expr = Inl r \<longrightarrow> LegacyVim_eval I request expr = Inl r"
    by (simp add: LegacyVim_eval_def)
  have pe: "py_eval I expr (module_dict s) = (ns, Inr v) \<longrightarrow> fst (python_eval I s expr) = Inr v"
    by (simp add: python_eval_def)
  show ?thesis
    using conv same inst lv le pe parse_int_str_int [of i] str_int_shape(1)
      str_int_shape(2) [of i] str_int_shape(3) [of i]
    by (intro conjI; (assumption | blast))
qed

lemma str_int_examples: "str_int (- 120) = ''-120''" "str_int 5 = ''5''"
  by code_simp+

lemma parse_int_example: "parse_int ''-120'' = Some (- 120)"
  by (simp add: parse_int_def parse_nat_def is_digit_def decimal_value_def)

lemma mini_float_str_example: "py_float_str (mini f) 3 0 = ''3.0''"
proof -
  have "str_int 3 = ''3''" by code_simp
  then show ?thesis by (simp add: mini_def mini_float_str_def del: digits10.simps)
qed

lemma walk_example:
  "walk (num_to_str (mini mark))
     (PList [PInt (- 120), PFloat 3 0, PDict [(PStr ''a'', PBool False)], PStr ''x'', PNone])
     = PList [PStr ''-120'', PStr ''3.0'', PDict [(PStr ''a'', PStr ''False'')], PStr ''x'', PNone]"
proof -
  have "num_to_str (mini mark) (PInt (- 120)) = PStr ''-120''"
    using str_int_examples(1) by (simp add: num_to_str_def del: digits10.simps)
  moreover have "num_to_str (mini mark) (PFloat 3 0) = PStr ''3.0''"
    using mini_float_str_example [of mark] by (simp add: num_to_str_def)
  moreover have "num_to_str (mini mark) (PBool False) = PStr ''False''"
    "num_to_str (mini mark) (PStr ''a'') = PStr ''a''"
    "num_to_str (mini mark) (PStr ''x'') = PStr ''x''"
    "num_to_str (mini mark) PNone = PNone"
    by (simp_all add: num_to_str_def)
  ultimately show ?thesis by simp
qed

theorem num_to_str_in_LegacyVim_eval_witness:
  "isinstance_num (PFloat 3 0) \<and> num_to_str (mini mark) (PFloat 3 0) = PStr ''3.0''
   \<and> \<not> isinstance_num (PStr ''x'') \<and> num_to_str (mini mark) (PStr ''x'') = PStr ''x''
   \<and> (- 120 :: int) < 0 \<and> num_to_str (mini mark) (PInt (- 120)) = PStr ''-120''
   \<and> parse_int ''-120'' = Some (- 120)
   \<and> hd ''-120'' = CHR ''-'' \<and> hd (tl ''-120'') \<noteq> CHR ''0''
   \<and> (0 :: int) < 5 \<and> num_to_str (mini mark) (PInt 5) = PStr ''5'' \<and> hd ''5'' \<noteq> CHR ''0''
   \<and> num_to_str (mini mark) (PBool False) = PStr ''False''
   \<and> reply_with (PList [PInt (- 120), PFloat 3 0, PDict [(PStr ''a'', PBool False)], PStr ''x'', PNone])
        ''vim_eval'' ''g:x''
        = Inr (PList [PInt (- 120), PFloat 3 0, PDict [(PStr ''a'', PBool False)], PStr ''x'', PNone])
   \<and> LegacyVim_eval (mini mark)
        (reply_with (PList [PInt (- 120), PFloat 3 0, PDict [(PStr ''a'', PBool False)], PStr ''x'', PNone]))
        ''g:x''
        = Inr (PList [PStr ''-120'', PStr ''3.0'', PDict [(PStr ''a'', PStr ''False'')], PStr ''x'', PNone])
   \<and> py_eval (mini mark) ''12'' (module_dict (bridge [])) = (module_dict (bridge []), Inr (PInt 12))
   \<and> fst (python_eval (mini mark) (bridge []) ''12'') = Inr (PInt 12)"
  using num_to_str_in_LegacyVim_eval [where obj = "PFloat 3 0" and I = "mini mark" and i = "- 120"
      and m = 3 and e = 0 and b = False
      and request = "reply_with (PList [PInt (- 120), PFloat 3 0, PDict [(PStr ''a'', PBool False)], PStr ''x'', PNone])"
      and expr = "''g:x''"
      and reply = "PList [PInt (- 120), PFloat 3 0, PDict [(PStr ''a'', PBool False)], PStr ''x'', PNone]"]
    num_to_str_in_LegacyVim_eval [where obj = "PStr ''x''" and I = "mini mark" and i = 5
      and request = "reply_with (PInt 3)" and expr = "''12''" and s = "bridge []"
      and ns = "module_dict (bridge [])" and v = "PInt 12"]
    mini_eval_literal [of mark "module_dict (bridge [])"] str_int_examples walk_example
    mini_float_str_example [of mark] parse_int_example
  by (simp add: reply_with_def del: digits10.simps)

section \<open>Exceptions of user code at the dispatcher\<close>


lemma range_loop_function_raises:
  assumes "0 \<le> start" "start < stop" "stop \<le> int (length (buf nv))"
    and "function (buf nv ! nat start) (start + 1) = Inl r"
  shows "fst (range_loop function start stop nv) = Inl r"
proof -
  let ?sstop = "min (start + 5000) stop"
  let ?lines = "take (nat (?sstop - start)) (drop (nat start) (buf nv))"
  have "?lines \<noteq> []" using assms(1-3) by (auto simp add: min_def)
  then obtain l ls where ls: "?lines = l # ls" by (cases ?lines) auto
  have "l = hd ?lines" using ls by simp
  also have "\<dots> = buf nv ! nat start"
    using assms(1-3) by (simp add: hd_drop_conv_nth)
  finally have l: "l = buf nv ! nat start" .
  have g: "get_lines nv start ?sstop = (Inr (l # ls), nv\<lparr>log := log nv @ [GetLines start ?sstop]\<rparr>)"
    using assms(1-3) ls by (simp add: get_lines_def Let_def)
  show ?thesis
    using assms(2,4) l by (subst range_loop.simps) (simp add: g Let_def del: min_less_iff_conj)
qed

text \<open>
  \<open>python_eval\<close> and \<open>python_do_range\<close> hold no handler: an exception of
  \<open>eval\<close>, or of the per-line function on the first line of a range, leaves the
  operation as it was raised.
\<close>

lemma exceptions_without_handler:
  "(py_eval I expr (module_dict s) = (ns, Inl r) \<longrightarrow> fst (python_eval I s expr) = Inl r)
   \<and> (py_exec I (function_def code) (module_dict s) = (ns, None) \<and> ns fname = Some fv
        \<and> 0 \<le> start - 1 \<and> start - 1 < stop \<and> stop \<le> int (length (buf (host s)))
        \<and> py_call I fv (buf (host s) ! nat (start - 1)) start = Inl r \<longrightarrow>
      fst (python_do_range I s start stop code) = Inl r)"
proof -
  have "fst (python_do_range I s start stop code) = Inl r"
    if "py_exec I (function_def code) (module_dict s) = (ns, None)" "ns fname = Some fv"
      "0 \<le> start - 1" "start - 1 < stop" "stop \<le> int (length (buf (host s)))"
      "py_call I fv (buf (host s) ! nat (start - 1)) start = Inl r"
  proof -
    have "fst (range_loop (py_call I fv) (start - 1) stop (host s)) = Inl r"
      using that(3-6) by (intro range_loop_function_raises) simp_all
    then show ?thesis
      using that(1,2)
      by (cases "range_loop (py_call I fv) (start - 1) stop (host s)")
        (simp add: python_do_range_def set_current_range_def)
  qed
  then show ?thesis
    by (auto simp add: python_eval_def)
qed

lemma do_range_function_raises:
  "fst (python_do_range (mini failing) (bridge [''a'']) 1 1 ''raise ValueError(line)'')
     = Inl (Exn ''ValueError'' ''a'', [''_vim_pydo''])"
  by code_simp





section \<open>One namespace for all calls\<close>














section \<open>The resolver on a module that is not there\<close>

lemma take_str_find:
  "0 \<le> str_find c s \<Longrightarrow> take (nat (str_find c s)) s = takeWhile (\<lambda>x. x \<noteq> c) s"
proof (induction s)
  case Nil
  then show ?case by simp
next
  case (Cons x xs)
  show ?case
  proof (cases "x = c")
    case True
    then show ?thesis by simp
  next
    case False
    with Cons.prems have nn: "0 \<le> str_find c xs"
      by (simp add: Let_def split: if_splits)
    then have "nat (str_find c xs + 1) = Suc (nat (str_find c xs))" by simp
    with False nn Cons.IH show ?thesis by (simp add: Let_def)
  qed
qed

text \<open>
  When the search roots (the given path, or else the runtime directories discovered now)
  hold neither the first component of the name nor the name itself, \<open>find_module\<close>
  returns \<open>None\<close>: the \<open>ImportError\<close> of the search is caught. When the standard path
  finder finds no module there, \<open>find_spec\<close> returns \<open>None\<close>.
\<close>

lemma resolver_declines_when_nothing_found:
  assumes "imp_search env (first_component fullname) (path_or_get_paths env path) = None"
    and "imp_search env fullname (path_or_get_paths env path) = None"
    and "PathFinder_find_spec env fullname (path_or_get_paths env path) = None"
  shows "find_module env fullname path = Inr None \<and> find_spec env fullname path = Inr None"
proof -
  let ?roots = "path_or_get_paths env path"
  have "find_module_rec env fullname fullname ?roots = Inl (import_error (first_component fullname))
        \<or> find_module_rec env fullname fullname ?roots = Inl (import_error fullname)"
  proof (cases "0 < str_find CHR ''.'' fullname")
    case True
    then have "take (nat (str_find CHR ''.'' fullname)) fullname = first_component fullname"
      by (simp add: take_str_find first_component_def)
    with True assms(1) show ?thesis
      by (simp add: find_module_rec_def imp_find_module_def Let_def)
  next
    case False
    with assms(2) show ?thesis
      by (simp add: find_module_rec_def imp_find_module_def Let_def)
  qed
  then have "find_module env fullname path = Inr None"
    by (auto simp add: find_module_def import_error_def)
  with assms(3) show ?thesis by (simp add: find_spec_def)
qed

lemma get_paths_sample_env: "get_paths sample_env = [''/rt/pythonx'']"
  by (simp add: get_paths_def sample_env_def os_path_join_def)

lemma resolver_declines_example:
  "path_or_get_paths sample_env None = [''/rt/pythonx'']
   \<and> imp_search sample_env (first_component ''missing.sub'') [''/rt/pythonx''] = None
   \<and> imp_search sample_env ''missing.sub'' [''/rt/pythonx''] = None
   \<and> PathFinder_find_spec sample_env ''missing.sub'' [''/rt/pythonx''] = None
   \<and> find_module sample_env ''missing.sub'' None = Inr None
   \<and> find_spec sample_env ''missing.sub'' None = Inr None"
  using resolver_declines_when_nothing_found [of sample_env "''missing.sub''" None] get_paths_sample_env
  by (simp add: path_or_get_paths_def first_component_def sample_env_def)

text \<open>
  For a dotted name whose first component is found, \<open>find_module\<close> does not decline:
  the second call of \<open>imp.find_module\<close> raises \<open>TypeError\<close>, and the handler is
  \<open>except ImportError\<close>.
\<close>

lemma find_module_dotted_name:
  assumes "0 < str_find CHR ''.'' fullname"
    and "imp_search env (first_component fullname) (path_or_get_paths env path) = Some r"
  shows "find_module env fullname path
           = Inl (Exn ''TypeError'' ''find_module() takes from 1 to 2 positional arguments but 4 were given'', [])"
proof -
  have "take (nat (str_find CHR ''.'' fullname)) fullname = first_component fullname"
    using assms(1) by (simp add: take_str_find first_component_def)
  with assms show ?thesis
    by (simp add: find_module_def find_module_rec_def imp_find_module_def imp_find_module_star_def
        Let_def)
qed


section \<open>The batches of python_do_range\<close>

subsection \<open>A function that returns text for every line\<close>

lemma length_numbered [simp]: "length (numbered ls n) = length ls"
  by (induction ls arbitrary: n) simp_all

lemma numbered_append: "numbered (xs @ ys) n = numbered xs n @ numbered ys (n + int (length xs))"
  by (induction xs arbitrary: n) (simp_all add: algebra_simps)

lemma numbered_nth: "i < length ls \<Longrightarrow> numbered ls n ! i = (ls ! i, n + int i)"
proof (induction ls arbitrary: n i)
  case Nil
  then show ?case by simp
next
  case (Cons l ls)
  then show ?case by (cases i) (simp_all add: algebra_simps)
qed

lemma length_texts [simp]: "length (texts f ls n) = length ls"
  by (simp add: texts_def)

lemma for_lines_texts:
  assumes "\<forall>i < length ls. is_text (f (ls ! i) (n + int i))"
  shows "for_lines f ls sstart newlines n nv
           = (Inr (None, sstart, newlines @ texts f ls n), nv\<lparr>log := log nv @ call_events ls n\<rparr>)"
  using assms
proof (induction ls arbitrary: newlines n nv)
  case Nil
  then show ?case by (simp add: texts_def call_events_def)
next
  case (Cons l ls)
  from Cons.prems have "is_text (f l n)" by auto
  then obtain r where r: "f l n = Inr (PStr r)"
    by (cases "f l n" rule: is_text.cases) simp_all
  have rest: "\<forall>i < length ls. is_text (f (ls ! i) (n + 1 + int i))"
  proof (intro allI impI)
    fix i assume "i < length ls"
    then have "is_text (f ((l # ls) ! Suc i) (n + int (Suc i)))"
      using Cons.prems by (metis Suc_less_eq length_Cons)
    then show "is_text (f (ls ! i) (n + 1 + int i))" by (simp add: algebra_simps)
  qed
  show ?case
    using r Cons.IH [OF rest] by (simp add: texts_def call_events_def)
qed

lemma calls_append [simp]: "calls (xs @ ys) = calls xs @ calls ys"
  by (simp add: calls_def)

lemma calls_Cons [simp]: "calls (x # xs) = call_of x @ calls xs"
  by (simp add: calls_def)

lemma calls_Nil [simp]: "calls [] = []"
  by (simp add: calls_def)

lemma calls_call_events [simp]: "calls (call_events ls n) = numbered ls n"
  by (induction ls arbitrary: n) (simp_all add: call_events_def)

lemma reads_call_events [simp]: "\<Union> (lines_read ` set (call_events ls n)) = {}"
  by (auto simp add: call_events_def)

lemma writes_call_events [simp]: "\<Union> (lines_written ` set (call_events ls n)) = {}"
  by (auto simp add: call_events_def)

lemma length_slice: "0 \<le> a \<Longrightarrow> a \<le> b \<Longrightarrow> b \<le> int (length xs) \<Longrightarrow> length (slice xs a b) = nat (b - a)"
  by (simp add: slice_def)

lemma slice_nth:
  "0 \<le> a \<Longrightarrow> b \<le> int (length xs) \<Longrightarrow> i < nat (b - a) \<Longrightarrow> slice xs a b ! i = xs ! nat (a + int i)"
  by (simp add: slice_def nat_add_distrib)

lemma slice_split:
  assumes "0 \<le> a" "a \<le> e" "e \<le> b"
  shows "slice xs a b = slice xs a e @ slice xs e b"
proof -
  have "nat (b - a) = nat (e - a) + nat (b - e)" using assms by linarith
  moreover have "nat e = nat (e - a) + nat a" using assms by linarith
  ultimately show ?thesis
    by (simp add: slice_def take_add drop_drop)
qed

lemma get_lines_slice:
  "0 \<le> a \<Longrightarrow> a \<le> b \<Longrightarrow> b \<le> int (length (buf nv)) \<Longrightarrow>
   get_lines nv a b = (Inr (slice (buf nv) a b), nv\<lparr>log := log nv @ [GetLines a b]\<rparr>)"
  by (simp add: get_lines_def slice_def)

lemma set_lines_ok:
  "0 \<le> a \<Longrightarrow> a \<le> b \<Longrightarrow> b \<le> int (length (buf nv)) \<Longrightarrow>
   set_lines nv a b repl
     = (Inr (), \<lparr>buf = take (nat a) (buf nv) @ repl @ drop (nat b) (buf nv),
                 log = log nv @ [SetLines a b repl]\<rparr>)"
  by (simp add: set_lines_def)

lemma range_loop_batch_texts:
  assumes "0 \<le> a" "a < b" "b \<le> int (length (buf nv))"
    and e: "e = min (a + 5000) b"
    and tx: "\<forall>i. a \<le> i \<and> i < e \<longrightarrow> is_text (f (buf nv ! nat i) (i + 1))"
  shows "range_loop f a b nv = range_loop f e b
           \<lparr>buf = take (nat a) (buf nv) @ texts f (slice (buf nv) a e) (a + 1) @ drop (nat e) (buf nv),
            log = log nv @ [GetLines a e] @ call_events (slice (buf nv) a e) (a + 1)
                    @ [SetLines a e (texts f (slice (buf nv) a e) (a + 1))]\<rparr>"
proof -
  let ?ls = "slice (buf nv) a e"
  let ?nv1 = "nv\<lparr>log := log nv @ [GetLines a e]\<rparr>"
  let ?nv2 = "?nv1\<lparr>log := log ?nv1 @ call_events ?ls (a + 1)\<rparr>"
  have ae: "a < e" "e \<le> b" using assms(2) e by simp_all
  have len: "length ?ls = nat (e - a)"
    using assms(1,3) ae by (simp add: length_slice)
  have g: "get_lines nv a e = (Inr ?ls, ?nv1)"
    using assms(1,3) ae by (simp add: get_lines_slice)
  have "\<forall>i < length ?ls. is_text (f (?ls ! i) (a + 1 + int i))"
  proof (intro allI impI)
    fix i assume i: "i < length ?ls"
    then have "?ls ! i = buf nv ! nat (a + int i)"
      using assms(1,3) ae len by (simp add: slice_nth)
    moreover have "a \<le> a + int i \<and> a + int i < e" using i len by linarith
    ultimately show "is_text (f (?ls ! i) (a + 1 + int i))"
      using tx by (metis add.commute add.left_commute)
  qed
  then have fl: "for_lines f ?ls a [] (a + 1) ?nv1 = (Inr (None, a, texts f ?ls (a + 1)), ?nv2)"
    using for_lines_texts [of ?ls f "a + 1" a "[]" ?nv1] by simp
  have ne: "texts f ?ls (a + 1) \<noteq> []"
    using len ae by (metis length_texts length_0_conv nat_0_iff diff_le_0_iff_le not_less)
  have end_eq: "a + int (length (texts f ?ls (a + 1))) = e"
    using len ae by simp
  have sl: "set_lines ?nv2 a e (texts f ?ls (a + 1))
              = (Inr (), \<lparr>buf = take (nat a) (buf nv) @ texts f ?ls (a + 1) @ drop (nat e) (buf nv),
                          log = log nv @ [GetLines a e] @ call_events ?ls (a + 1)
                                  @ [SetLines a e (texts f ?ls (a + 1))]\<rparr>)"
    using assms(1,3) ae by (simp add: set_lines_ok)
  show ?thesis
    using assms(2) e g fl ne end_eq sl
    by (subst range_loop.simps) (simp add: Let_def del: for_lines.simps min_less_iff_conj)
qed

lemma texts_append: "texts f (xs @ ys) n = texts f xs n @ texts f ys (n + int (length xs))"
  by (simp add: texts_def numbered_append)

lemma slice_empty [simp]: "slice xs a a = []"
  by (simp add: slice_def)

lemma spliced:
  assumes "0 \<le> a" "a \<le> e" "e \<le> int (length xs)" "length T = nat (e - a)"
  shows "length (take (nat a) xs @ T @ drop (nat e) xs) = length xs"
    and "take (nat e) (take (nat a) xs @ T @ drop (nat e) xs) = take (nat a) xs @ T"
    and "drop (nat e) (take (nat a) xs @ T @ drop (nat e) xs) = drop (nat e) xs"
proof -
  have la: "length (take (nat a) xs) = nat a" using assms(1-3) by simp
  have le: "nat a + nat (e - a) = nat e" using assms(1,2) by linarith
  show "length (take (nat a) xs @ T @ drop (nat e) xs) = length xs"
    using assms la le by simp
  have "length (take (nat a) xs @ T) = nat e" using la le assms(4) by simp
  then show "take (nat e) (take (nat a) xs @ T @ drop (nat e) xs) = take (nat a) xs @ T"
    and "drop (nat e) (take (nat a) xs @ T @ drop (nat e) xs) = drop (nat e) xs"
    by (metis append.assoc append_eq_conv_conj)+
qed

lemma range_loop_texts:
  assumes "0 \<le> a" "a \<le> b" "b \<le> int (length (buf nv))"
    and tx: "\<forall>i. a \<le> i \<and> i < b \<longrightarrow> is_text (f (buf nv ! nat i) (i + 1))"
  shows "\<exists>evs. range_loop f a b nv
             = (Inr (), \<lparr>buf = take (nat a) (buf nv) @ texts f (slice (buf nv) a b) (a + 1)
                                 @ drop (nat b) (buf nv),
                         log = log nv @ evs\<rparr>)
           \<and> \<Union> (lines_read ` set evs) = {a..<b}
           \<and> \<Union> (lines_written ` set evs) = {a..<b}
           \<and> calls evs = numbered (slice (buf nv) a b) (a + 1)"
  using assms
proof (induction "nat (b - a)" arbitrary: a nv rule: less_induct)
  case less
  show ?case
  proof (cases "a < b")
    case False
    with less.prems have ab: "a = b" by simp
    have "range_loop f a b nv = (Inr (), nv)"
      using False by (rule range_loop_done)
    then show ?thesis
      using ab by (intro exI [of _ "[]"]) (simp add: texts_def)
  next
    case True
    define e where "e = min (a + 5000) b"
    define T where "T = texts f (slice (buf nv) a e) (a + 1)"
    define evs1 where "evs1 = [GetLines a e] @ call_events (slice (buf nv) a e) (a + 1) @ [SetLines a e T]"
    define nv3 where "nv3 = \<lparr>buf = take (nat a) (buf nv) @ T @ drop (nat e) (buf nv), log = log nv @ evs1\<rparr>"
    have ae: "a < e" "e \<le> b" using True by (simp_all add: e_def)
    have lenT: "length T = nat (e - a)"
      using less.prems(1,3) ae by (simp add: T_def length_slice)
    have e_len: "e \<le> int (length (buf nv))" using ae less.prems(3) by simp
    have a_le_e: "a \<le> e" using ae by simp
    note sp = spliced [OF less.prems(1) a_le_e e_len lenT]
    have step: "range_loop f a b nv = range_loop f e b nv3"
      unfolding nv3_def evs1_def T_def
      using less.prems(1) True less.prems(3) e_def
    proof (rule range_loop_batch_texts)
      show "\<forall>i. a \<le> i \<and> i < e \<longrightarrow> is_text (f (buf nv ! nat i) (i + 1))"
        using less.prems(4) ae by auto
    qed
    have buf3: "buf nv3 = take (nat a) (buf nv) @ T @ drop (nat e) (buf nv)"
      by (simp add: nv3_def)
    have len3: "length (buf nv3) = length (buf nv)"
      unfolding buf3 by (rule sp(1))
    have t3: "take (nat e) (buf nv3) = take (nat a) (buf nv) @ T"
      unfolding buf3 by (rule sp(2))
    have d3: "drop (nat e) (buf nv3) = drop (nat e) (buf nv)"
      unfolding buf3 by (rule sp(3))
    have nth3: "buf nv3 ! nat i = buf nv ! nat i" if "e \<le> i" "i < b" for i
    proof -
      have "nat i = nat e + nat (i - e)" using that ae less.prems(1) by linarith
      moreover have "nat i < length (buf nv)" using that less.prems(1,3) ae by linarith
      ultimately have "buf nv3 ! nat i = drop (nat e) (buf nv3) ! nat (i - e)"
        using len3 by (metis nth_drop le_add1 less_imp_le_nat order_le_less_trans)
      also have "\<dots> = drop (nat e) (buf nv) ! nat (i - e)"
        by (simp only: d3)
      also have "\<dots> = buf nv ! nat i"
        using \<open>nat i = nat e + nat (i - e)\<close> \<open>nat i < length (buf nv)\<close>
        by (metis nth_drop le_add1 less_imp_le_nat order_le_less_trans)
      finally show ?thesis .
    qed
    have "nat (b - e) < nat (b - a)" using ae by linarith
    moreover have "0 \<le> e" using ae less.prems(1) by simp
    moreover have "b \<le> int (length (buf nv3))" using len3 less.prems(3) by simp
    moreover have "\<forall>i. e \<le> i \<and> i < b \<longrightarrow> is_text (f (buf nv3 ! nat i) (i + 1))"
      using less.prems(4) nth3 ae by auto
    ultimately obtain evs2 where
      r: "range_loop f e b nv3
            = (Inr (), \<lparr>buf = take (nat e) (buf nv3) @ texts f (slice (buf nv3) e b) (e + 1)
                                 @ drop (nat b) (buf nv3),
                        log = log nv3 @ evs2\<rparr>)"
      and rd: "\<Union> (lines_read ` set evs2) = {e..<b}"
      and wr: "\<Union> (lines_written ` set evs2) = {e..<b}"
      and cl: "calls evs2 = numbered (slice (buf nv3) e b) (e + 1)"
      using less.hyps [of e nv3] ae(2) by blast
    have sl3: "slice (buf nv3) e b = slice (buf nv) e b"
      by (simp add: slice_def d3)
    have dr3: "drop (nat b) (buf nv3) = drop (nat b) (buf nv)"
    proof -
      have nb: "nat b = nat (b - e) + nat e" using ae less.prems(1) by linarith
      have "drop (nat b) (buf nv3) = drop (nat (b - e)) (drop (nat e) (buf nv3))"
        by (simp only: nb drop_drop)
      also have "\<dots> = drop (nat (b - e)) (drop (nat e) (buf nv))"
        by (simp only: d3)
      also have "\<dots> = drop (nat b) (buf nv)"
        by (simp only: nb drop_drop)
      finally show ?thesis .
    qed
    have split: "slice (buf nv) a b = slice (buf nv) a e @ slice (buf nv) e b"
      using less.prems(1) a_le_e ae(2) by (rule slice_split)
    have len_ae: "int (length (slice (buf nv) a e)) = e - a"
      using less.prems(1) a_le_e e_len by (simp add: length_slice)
    have tsplit: "texts f (slice (buf nv) a b) (a + 1) = T @ texts f (slice (buf nv) e b) (e + 1)"
      using len_ae by (simp add: split texts_append T_def algebra_simps)
    have nsplit: "numbered (slice (buf nv) a b) (a + 1)
                    = numbered (slice (buf nv) a e) (a + 1) @ numbered (slice (buf nv) e b) (e + 1)"
      using len_ae by (simp add: split numbered_append algebra_simps)
    have r': "range_loop f e b nv3
                = (Inr (), \<lparr>buf = (take (nat a) (buf nv) @ T) @ texts f (slice (buf nv) e b) (e + 1)
                                    @ drop (nat b) (buf nv),
                            log = (log nv @ evs1) @ evs2\<rparr>)"
      using r unfolding t3 sl3 dr3 by (simp add: nv3_def)
    have final: "range_loop f a b nv
                   = (Inr (), \<lparr>buf = take (nat a) (buf nv) @ texts f (slice (buf nv) a b) (a + 1)
                                       @ drop (nat b) (buf nv),
                               log = log nv @ (evs1 @ evs2)\<rparr>)"
      using step r' by (simp add: tsplit)
    have "\<Union> (lines_read ` set (evs1 @ evs2)) = {a..<b}"
      using rd ae by (auto simp add: evs1_def)
    moreover have "\<Union> (lines_written ` set (evs1 @ evs2)) = {a..<b}"
      using wr ae by (auto simp add: evs1_def)
    moreover have "calls (evs1 @ evs2) = numbered (slice (buf nv) a b) (a + 1)"
      using cl by (simp add: evs1_def sl3 nsplit)
    ultimately show ?thesis using final by blast
  qed
qed

subsection \<open>The lines that python_do_range touches\<close>

lemma is_text_mini_mark: "is_text (py_call (mini mark) (PFun c) l k)"
  by (simp add: mini_def mini_call_def mark_def)

text \<open>
  Claim C5, as stated, fails: the interval \<open>[1, 2)\<close> holds one line, and
  \<open>python_do_range\<close> with \<open>start = 1\<close> and \<open>stop = 2\<close> reads and rewrites two, the
  lines 1 and 2 (the indices 0 and 1).
\<close>

theorem do_range_two_lines_for_one:
  "host (snd (python_do_range (mini mark) (bridge [''a'', ''b'', ''c'']) 1 2 ''return line + chr(33)''))
     = \<lparr>buf = [''a!'', ''b!'', ''c''],
        log = [GetLines 0 2, Call ''a'' 1, Call ''b'' 2, SetLines 0 2 [''a!'', ''b!'']]\<rparr>
   \<and> {1..<2} = {1::int}"
  by code_simp

text \<open>
  Claim C5, amended. For \<open>1 \<le> start \<le> stop \<le>\<close> the number of lines, and a function
  that returns text for every line of the range, \<open>python_do_range\<close> returns normally;
  its calls of \<open>get_lines\<close> read exactly the lines with 0-based index in
  \<open>[start - 1, stop)\<close>, that is the lines \<open>start\<close> to \<open>stop\<close> inclusive, its calls of
  \<open>set_lines\<close> write exactly these, and the buffer afterwards is the old one with these
  lines replaced by the texts returned: every line outside is unchanged.
\<close>

theorem do_range_touches_its_lines_only:
  assumes "1 \<le> start" "start \<le> stop" "stop \<le> int (length (buf (host s)))"
    and "py_exec I (function_def code) (module_dict s) = (ns, None)"
    and "ns fname = Some fv"
    and "\<forall>i. start \<le> i \<and> i \<le> stop \<longrightarrow> is_text (py_call I fv (buf (host s) ! nat (i - 1)) i)"
  shows "\<exists>evs. fst (python_do_range I s start stop code) = Inr ()
           \<and> log (host (snd (python_do_range I s start stop code))) = log (host s) @ evs
           \<and> \<Union> (lines_read ` set evs) = {start - 1..<stop}
           \<and> \<Union> (lines_written ` set evs) = {start - 1..<stop}
           \<and> buf (host (snd (python_do_range I s start stop code)))
               = take (nat (start - 1)) (buf (host s))
                 @ texts (py_call I fv) (slice (buf (host s)) (start - 1) stop) start
                 @ drop (nat stop) (buf (host s))
           \<and> length (buf (host (snd (python_do_range I s start stop code)))) = length (buf (host s))
           \<and> take (nat (start - 1)) (buf (host (snd (python_do_range I s start stop code))))
               = take (nat (start - 1)) (buf (host s))
           \<and> drop (nat stop) (buf (host (snd (python_do_range I s start stop code))))
               = drop (nat stop) (buf (host s))"
proof -
  let ?B = "buf (host s)"
  let ?T = "texts (py_call I fv) (slice ?B (start - 1) stop) start"
  have "\<forall>i. start - 1 \<le> i \<and> i < stop \<longrightarrow> is_text (py_call I fv (?B ! nat i) (i + 1))"
  proof (intro allI impI)
    fix i assume "start - 1 \<le> i \<and> i < stop"
    then have "start \<le> i + 1 \<and> i + 1 \<le> stop" by simp
    then have "is_text (py_call I fv (?B ! nat (i + 1 - 1)) (i + 1))"
      using assms(6) by blast
    then show "is_text (py_call I fv (?B ! nat i) (i + 1))" by simp
  qed
  then obtain evs where
    r: "range_loop (py_call I fv) (start - 1) stop (host s)
          = (Inr (), \<lparr>buf = take (nat (start - 1)) ?B
                              @ texts (py_call I fv) (slice ?B (start - 1) stop) (start - 1 + 1)
                              @ drop (nat stop) ?B,
                      log = log (host s) @ evs\<rparr>)"
    and rd: "\<Union> (lines_read ` set evs) = {start - 1..<stop}"
    and wr: "\<Union> (lines_written ` set evs) = {start - 1..<stop}"
    using range_loop_texts [of "start - 1" stop "host s" "py_call I fv"] assms(1-3) by auto
  have res: "fst (python_do_range I s start stop code) = Inr ()
        \<and> host (snd (python_do_range I s start stop code))
            = \<lparr>buf = take (nat (start - 1)) ?B @ ?T @ drop (nat stop) ?B,
               log = log (host s) @ evs\<rparr>"
    using assms(4,5) r by (simp add: python_do_range_def set_current_range_def)
  have "length ?T = nat (stop - (start - 1))"
    using assms(1-3) by (simp add: length_slice)
  then have sp:
    "length (take (nat (start - 1)) ?B @ ?T @ drop (nat stop) ?B) = length ?B"
    "take (nat stop) (take (nat (start - 1)) ?B @ ?T @ drop (nat stop) ?B) = take (nat (start - 1)) ?B @ ?T"
    "drop (nat stop) (take (nat (start - 1)) ?B @ ?T @ drop (nat stop) ?B) = drop (nat stop) ?B"
    using assms(1-3) by (intro spliced; simp)+
  have "take (nat (start - 1)) (take (nat (start - 1)) ?B @ ?T @ drop (nat stop) ?B) = take (nat (start - 1)) ?B"
    using assms(1-3) by simp
  with res rd wr sp(1,3) show ?thesis
    by (intro exI [of _ evs]) (simp del: length_texts)
qed

theorem do_range_touches_its_lines_only_witness:
  "(1::int) \<le> 2 \<and> (2::int) \<le> 3 \<and> (3::int) \<le> int (length (buf (host (bridge [''a'', ''b'', ''c'']))))
   \<and> fst (python_do_range (mini mark) (bridge [''a'', ''b'', ''c'']) 2 3 ''return line + chr(33)'') = Inr ()
   \<and> buf (host (snd (python_do_range (mini mark) (bridge [''a'', ''b'', ''c'']) 2 3 ''return line + chr(33)'')))
       = [''a'', ''b!'', ''c!'']"
  using do_range_touches_its_lines_only [of 2 3 "bridge [''a'', ''b'', ''c'']" "mini mark"
      "''return line + chr(33)''", OF _ _ _ mini_exec_def_binds]
    is_text_mini_mark
  by (simp add: bridge_def texts_def slice_def mini_def mini_call_def mark_def)

subsection \<open>A function that returns None\<close>

lemma texts_identity:
  assumes "\<forall>i < length ls. f (ls ! i) (n + int i) = Inr (PStr (ls ! i))"
  shows "texts f ls n = ls"
proof (rule nth_equalityI)
  show "length (texts f ls n) = length ls" by simp
next
  fix i assume "i < length (texts f ls n)"
  then have i: "i < length ls" by simp
  then have "texts f ls n ! i = out_text (f (ls ! i) (n + int i))"
    by (simp add: texts_def numbered_nth)
  with assms i show "texts f ls n ! i = ls ! i" by simp
qed

lemma slice_Cons:
  assumes "0 \<le> a" "a < e" "e \<le> int (length xs)"
  shows "slice xs a e = xs ! nat a # slice xs (a + 1) e"
proof -
  have "nat a < length xs" using assms by linarith
  then have "drop (nat a) xs = xs ! nat a # drop (Suc (nat a)) xs"
    by (simp add: Cons_nth_drop_Suc)
  moreover have "nat (e - a) = Suc (nat (e - (a + 1)))" using assms by linarith
  moreover have "nat (a + 1) = Suc (nat a)" using assms by linarith
  ultimately show ?thesis by (simp add: slice_def)
qed

lemma take_slice_drop:
  assumes "0 \<le> a" "a \<le> e" "e \<le> int (length xs)"
  shows "take (nat a) xs @ slice xs a e @ drop (nat e) xs = xs"
proof -
  have "nat e = nat (e - a) + nat a" using assms by linarith
  then have "drop (nat e) xs = drop (nat (e - a)) (drop (nat a) xs)"
    by (simp add: drop_drop)
  then have "slice xs a e @ drop (nat e) xs = drop (nat a) xs"
    by (simp only: slice_def append_take_drop_id)
  then show ?thesis by simp
qed

lemma range_loop_batch_skip_first:
  assumes "0 \<le> a" "a < b" "b \<le> int (length (buf nv))"
    and e: "e = min (a + 5000) b"
    and first: "f (buf nv ! nat a) (a + 1) = Inr PNone"
    and rest: "\<forall>i. a + 1 \<le> i \<and> i < e \<longrightarrow> f (buf nv ! nat i) (i + 1) = Inr (PStr (buf nv ! nat i))"
  shows "range_loop f a b nv = range_loop f e b
           \<lparr>buf = buf nv,
            log = log nv @ [GetLines a e] @ call_events (slice (buf nv) a e) (a + 1)
                    @ (if a + 1 < e then [SetLines (a + 1) e (slice (buf nv) (a + 1) e)] else [])\<rparr>"
proof -
  let ?l = "buf nv ! nat a"
  let ?ls = "slice (buf nv) (a + 1) e"
  let ?nv1 = "nv\<lparr>log := log nv @ [GetLines a e]\<rparr>"
  let ?nv2 = "?nv1\<lparr>log := log ?nv1 @ [Call ?l (a + 1)]\<rparr>"
  let ?nv3 = "?nv2\<lparr>log := log ?nv2 @ call_events ?ls (a + 1 + 1)\<rparr>"
  have ae: "a < e" "e \<le> b" using assms(2) e by simp_all
  have e_len: "e \<le> int (length (buf nv))" using ae assms(3) by simp
  have sl: "slice (buf nv) a e = ?l # ?ls"
    using assms(1) ae(1) e_len by (rule slice_Cons)
  have len: "length ?ls = nat (e - (a + 1))"
    using assms(1) ae e_len by (simp add: length_slice)
  have g: "get_lines nv a e = (Inr (?l # ?ls), ?nv1)"
    using assms(1) ae e_len sl by (simp add: get_lines_slice)
  have id: "\<forall>i < length ?ls. f (?ls ! i) (a + 1 + 1 + int i) = Inr (PStr (?ls ! i))"
  proof (intro allI impI)
    fix i assume i: "i < length ?ls"
    then have "?ls ! i = buf nv ! nat (a + 1 + int i)"
      using assms(1) e_len len by (simp add: slice_nth)
    moreover have "a + 1 \<le> a + 1 + int i \<and> a + 1 + int i < e" using i len by linarith
    ultimately show "f (?ls ! i) (a + 1 + 1 + int i) = Inr (PStr (?ls ! i))"
      using rest by (metis add.commute add.left_commute)
  qed
  then have "\<forall>i < length ?ls. is_text (f (?ls ! i) (a + 1 + 1 + int i))" by simp
  then have "for_lines f ?ls (a + 1) [] (a + 1 + 1) ?nv2
               = (Inr (None, a + 1, [] @ texts f ?ls (a + 1 + 1)), ?nv3)"
    by (rule for_lines_texts)
  then have fl: "for_lines f (?l # ?ls) a [] (a + 1) ?nv1 = (Inr (None, a + 1, ?ls), ?nv3)"
    using first texts_identity [OF id] by simp
  have calls: "call_events (?l # ?ls) (a + 1) = Call ?l (a + 1) # call_events ?ls (a + 1 + 1)"
    by (simp add: call_events_def)
  show ?thesis
  proof (cases "a + 1 < e")
    case True
    then have ne: "?ls \<noteq> []" using len by auto
    have end_eq: "a + 1 + int (length ?ls) = e" using len True by simp
    have whole: "take (nat (a + 1)) (buf nv) @ ?ls @ drop (nat e) (buf nv) = buf nv"
      using assms(1) True e_len by (intro take_slice_drop) simp_all
    have "set_lines ?nv3 (a + 1) e ?ls
            = (Inr (), \<lparr>buf = buf nv, log = log ?nv3 @ [SetLines (a + 1) e ?ls]\<rparr>)"
      using assms(1) True e_len whole by (simp add: set_lines_ok)
    then show ?thesis
      using assms(2) e g fl ne end_eq True sl calls
      by (subst range_loop.simps) (simp add: Let_def del: for_lines.simps min_less_iff_conj)
  next
    case False
    then have "?ls = []" using len by simp
    then show ?thesis
      using assms(2) e g fl False sl calls
      by (subst range_loop.simps) (simp add: Let_def del: for_lines.simps min_less_iff_conj)
  qed
qed

text \<open>
  Claim C4, as stated, fails: with \<open>None\<close> for line 1 and the other lines returned
  unchanged the range is left as it was, line 1 included; with \<open>None\<close> for line 2 the
  range is left with line 1 twice and line 3 twice.
\<close>

theorem none_result_does_not_delete:
  "buf (host (snd (python_do_range (mini (none_at 1)) (bridge [''a'', ''b'', ''c'']) 1 3 ''return line'')))
     = [''a'', ''b'', ''c'']
   \<and> buf (host (snd (python_do_range (mini (none_at 2)) (bridge [''a'', ''b'', ''c'']) 1 3 ''return line'')))
     = [''a'', ''a'', ''c'', ''c'']"
  by code_simp

text \<open>
  Claim C4, amended. \<open>None\<close> means that the line is skipped, not deleted: when the
  function returns \<open>None\<close> for the first line of the range and every other line's text
  unchanged, \<open>python_do_range\<close> returns normally with the buffer equal to the input,
  and its calls of \<open>set_lines\<close> write exactly the lines after the skipped one (the
  write cursor moved past it).
\<close>

theorem none_for_first_line_keeps_it:
  assumes "1 \<le> start" "start \<le> stop" "stop \<le> int (length (buf (host s)))"
    and "py_exec I (function_def code) (module_dict s) = (ns, None)"
    and "ns fname = Some fv"
    and "py_call I fv (buf (host s) ! nat (start - 1)) start = Inr PNone"
    and "\<forall>i. start < i \<and> i \<le> stop \<longrightarrow>
           py_call I fv (buf (host s) ! nat (i - 1)) i = Inr (PStr (buf (host s) ! nat (i - 1)))"
  shows "\<exists>evs. fst (python_do_range I s start stop code) = Inr ()
           \<and> buf (host (snd (python_do_range I s start stop code))) = buf (host s)
           \<and> log (host (snd (python_do_range I s start stop code))) = log (host s) @ evs
           \<and> \<Union> (lines_written ` set evs) = {start..<stop}"
proof -
  let ?f = "py_call I fv"
  let ?B = "buf (host s)"
  define a where "a = start - 1"
  define e where "e = min (a + 5000) stop"
  define evs1 where "evs1 = [GetLines a e] @ call_events (slice ?B a e) (a + 1)
                      @ (if a + 1 < e then [SetLines (a + 1) e (slice ?B (a + 1) e)] else [])"
  define nv3 where "nv3 = \<lparr>buf = ?B, log = log (host s) @ evs1\<rparr>"
  have a0: "0 \<le> a" "a < stop" using assms(1,2) by (simp_all add: a_def)
  have ae: "a < e" "e \<le> stop" using a0 by (simp_all add: e_def)
  have id: "?f (?B ! nat i) (i + 1) = Inr (PStr (?B ! nat i))" if "a + 1 \<le> i" "i < stop" for i
  proof -
    have "start < i + 1 \<and> i + 1 \<le> stop" using that by (simp add: a_def)
    then have "?f (?B ! nat (i + 1 - 1)) (i + 1) = Inr (PStr (?B ! nat (i + 1 - 1)))"
      using assms(7) by blast
    then show ?thesis by simp
  qed
  have step: "range_loop ?f a stop (host s) = range_loop ?f e stop nv3"
    unfolding nv3_def evs1_def
    using a0 assms(3) e_def
  proof (rule range_loop_batch_skip_first)
    show "?f (?B ! nat a) (a + 1) = Inr PNone" using assms(6) by (simp add: a_def)
    show "\<forall>i. a + 1 \<le> i \<and> i < e \<longrightarrow> ?f (?B ! nat i) (i + 1) = Inr (PStr (?B ! nat i))"
      using id ae by auto
  qed
  have e0: "0 \<le> e" using a0 ae by simp
  have b3: "stop \<le> int (length (buf nv3))" using assms(3) by (simp add: nv3_def)
  have buf3: "buf nv3 = ?B" by (simp add: nv3_def)
  have tx: "\<forall>i. e \<le> i \<and> i < stop \<longrightarrow> is_text (?f (buf nv3 ! nat i) (i + 1))"
    using id ae by (simp add: buf3)
  obtain evs2 where
    r: "range_loop ?f e stop nv3
          = (Inr (), \<lparr>buf = take (nat e) (buf nv3) @ texts ?f (slice (buf nv3) e stop) (e + 1)
                              @ drop (nat stop) (buf nv3),
                      log = log nv3 @ evs2\<rparr>)"
    and wr: "\<Union> (lines_written ` set evs2) = {e..<stop}"
    using range_loop_texts [OF e0 ae(2) b3 tx] by blast
  have "\<forall>i < length (slice ?B e stop). ?f (slice ?B e stop ! i) (e + 1 + int i) = Inr (PStr (slice ?B e stop ! i))"
  proof (intro allI impI)
    fix i assume i: "i < length (slice ?B e stop)"
    have len: "length (slice ?B e stop) = nat (stop - e)"
      using e0 ae assms(3) by (simp add: length_slice)
    then have "slice ?B e stop ! i = ?B ! nat (e + int i)"
      using i e0 assms(3) by (simp add: slice_nth)
    moreover have "a + 1 \<le> e + int i" "e + int i < stop" using i len ae by linarith+
    ultimately show "?f (slice ?B e stop ! i) (e + 1 + int i) = Inr (PStr (slice ?B e stop ! i))"
      using id [of "e + int i"] by (simp add: algebra_simps)
  qed
  then have "texts ?f (slice ?B e stop) (e + 1) = slice ?B e stop"
    by (rule texts_identity)
  moreover have "take (nat e) ?B @ slice ?B e stop @ drop (nat stop) ?B = ?B"
    using e0 ae(2) assms(3) by (rule take_slice_drop)
  ultimately have r': "range_loop ?f e stop nv3 = (Inr (), \<lparr>buf = ?B, log = log (host s) @ (evs1 @ evs2)\<rparr>)"
    using r by (simp add: buf3) (simp add: nv3_def)
  have res: "fst (python_do_range I s start stop code) = Inr ()
        \<and> host (snd (python_do_range I s start stop code))
            = \<lparr>buf = ?B, log = log (host s) @ (evs1 @ evs2)\<rparr>"
    using assms(4,5) step r' by (simp add: python_do_range_def set_current_range_def a_def)
  have "\<Union> (lines_written ` set (evs1 @ evs2)) = {start..<stop}"
    using wr ae by (auto simp add: evs1_def a_def)
  with res show ?thesis by (intro exI [of _ "evs1 @ evs2"]) simp
qed

lemma mini_none_at_2:
  "py_call (mini (none_at 2)) (PFun c) l 2 = Inr PNone"
  "k \<noteq> 2 \<Longrightarrow> py_call (mini (none_at 2)) (PFun c) l k = Inr (PStr l)"
  by (simp_all add: mini_def mini_call_def none_at_def)

theorem none_for_first_line_keeps_it_witness:
  "(1::int) \<le> 2 \<and> (2::int) \<le> 3 \<and> (3::int) \<le> int (length (buf (host (bridge [''a'', ''b'', ''c'']))))
   \<and> py_call (mini (none_at 2)) (PFun (function_def ''return line'')) ''b'' 2 = Inr PNone
   \<and> py_call (mini (none_at 2)) (PFun (function_def ''return line'')) ''c'' 3 = Inr (PStr ''c'')
   \<and> fst (python_do_range (mini (none_at 2)) (bridge [''a'', ''b'', ''c'']) 2 3 ''return line'') = Inr ()
   \<and> buf (host (snd (python_do_range (mini (none_at 2)) (bridge [''a'', ''b'', ''c'']) 2 3 ''return line'')))
       = [''a'', ''b'', ''c'']"
  using none_for_first_line_keeps_it [of 2 3 "bridge [''a'', ''b'', ''c'']" "mini (none_at 2)"
      "''return line''", OF _ _ _ mini_exec_def_binds]
    mini_none_at_2
  by (simp add: bridge_def)

subsection \<open>None after pending text: the flush inside a batch\<close>

text \<open>
  The flush inside a batch writes the pending lines over the range that ends at
  \<open>sstart + len(newlines) - 1\<close>: one line fewer than it writes, so the buffer grows by
  one line and every later line moves down by one.
\<close>

lemma inserted:
  assumes "0 \<le> a" "a + 2 \<le> e" "e \<le> int (length B)"
  shows "take (nat (a + 2)) (take (nat a) B @ [t] @ drop (nat a) B) = take (nat a) B @ [t, B ! nat a]"
    and "drop (nat e) (take (nat a) B @ [t] @ drop (nat a) B) = drop (nat (e - 1)) B"
    and "length (take (nat a) B @ [t] @ drop (nat a) B) = length B + 1"
proof -
  let ?P = "take (nat a) B @ [t, B ! nat a]"
  have alen: "nat a < length B" using assms by linarith
  then have d: "drop (nat a) B = B ! nat a # drop (Suc (nat a)) B"
    by (simp add: Cons_nth_drop_Suc)
  have whole: "take (nat a) B @ [t] @ drop (nat a) B = ?P @ drop (Suc (nat a)) B"
    by (simp add: d)
  have lenP: "length ?P = nat (a + 2)" using alen assms(1) by (simp add: nat_add_distrib)
  show "take (nat (a + 2)) (take (nat a) B @ [t] @ drop (nat a) B) = ?P"
    unfolding whole using lenP by (metis append_eq_conv_conj)
  have "nat e = nat (e - (a + 2)) + length ?P" using lenP assms(1,2) by linarith
  then have "drop (nat e) (?P @ drop (Suc (nat a)) B) = drop (nat (e - (a + 2))) (drop (Suc (nat a)) B)"
    by (metis append_eq_conv_conj drop_drop)
  also have "\<dots> = drop (nat (e - (a + 2)) + Suc (nat a)) B"
    by (simp only: drop_drop)
  also have "nat (e - (a + 2)) + Suc (nat a) = nat (e - 1)" using assms(1,2) by linarith
  finally show "drop (nat e) (take (nat a) B @ [t] @ drop (nat a) B) = drop (nat (e - 1)) B"
    unfolding whole .
  show "length (take (nat a) B @ [t] @ drop (nat a) B) = length B + 1"
    using alen by simp
qed

lemma range_loop_batch_flush:
  assumes "0 \<le> a" "a + 2 \<le> e" "b \<le> int (length (buf nv))"
    and e: "e = min (a + 5000) b"
    and f0: "f (buf nv ! nat a) (a + 1) = Inr (PStr t)"
    and f1: "f (buf nv ! nat (a + 1)) (a + 2) = Inr PNone"
    and rest: "\<forall>i. a + 2 \<le> i \<and> i < e \<longrightarrow> is_text (f (buf nv ! nat i) (i + 1))"
  shows "range_loop f a b nv = range_loop f e b
           \<lparr>buf = take (nat a) (buf nv) @ [t, buf nv ! nat a]
                   @ texts f (slice (buf nv) (a + 2) e) (a + 3) @ drop (nat (e - 1)) (buf nv),
            log = log nv @ [GetLines a e, Call (buf nv ! nat a) (a + 1),
                            Call (buf nv ! nat (a + 1)) (a + 2), SetLines a a [t]]
                    @ call_events (slice (buf nv) (a + 2) e) (a + 3)
                    @ (if a + 2 < e then [SetLines (a + 2) e (texts f (slice (buf nv) (a + 2) e) (a + 3))]
                       else [])\<rparr>"
proof -
  let ?B = "buf nv"
  let ?l0 = "?B ! nat a"
  let ?l1 = "?B ! nat (a + 1)"
  let ?ls = "slice ?B (a + 2) e"
  let ?T = "texts f ?ls (a + 3)"
  let ?B1 = "take (nat a) ?B @ [t] @ drop (nat a) ?B"
  let ?lg1 = "log nv @ [GetLines a e, Call ?l0 (a + 1), Call ?l1 (a + 2), SetLines a a [t]]"
  let ?nv1 = "nv\<lparr>log := log nv @ [GetLines a e]\<rparr>"
  let ?nvc = "\<lparr>buf = ?B1, log = ?lg1\<rparr>"
  let ?nvd = "?nvc\<lparr>log := log ?nvc @ call_events ?ls (a + 3)\<rparr>"
  have ae: "a < e" "e \<le> b" "a + 1 < e" using assms(2) e by simp_all
  have e_len: "e \<le> int (length ?B)" using ae assms(3) by simp
  have sl: "slice ?B a e = ?l0 # ?l1 # ?ls"
    using slice_Cons [of a e ?B] slice_Cons [of "a + 1" e ?B] assms(1) ae e_len
    by (simp add: algebra_simps)
  have len: "length ?ls = nat (e - (a + 2))"
    using assms(1,2) e_len by (simp add: length_slice)
  have g: "get_lines nv a e = (Inr (?l0 # ?l1 # ?ls), ?nv1)"
    using assms(1) ae e_len sl by (simp add: get_lines_slice)
  have tx: "\<forall>i < length ?ls. is_text (f (?ls ! i) (a + 3 + int i))"
  proof (intro allI impI)
    fix i assume i: "i < length ?ls"
    then have "?ls ! i = ?B ! nat (a + 2 + int i)"
      using assms(1) e_len len by (simp add: slice_nth)
    moreover have "a + 2 \<le> a + 2 + int i \<and> a + 2 + int i < e" using i len by linarith
    moreover have "a + 2 + int i + 1 = a + 3 + int i" by simp
    ultimately show "is_text (f (?ls ! i) (a + 3 + int i))"
      using rest by metis
  qed
  have fl3: "for_lines f ?ls (a + 2) [] (a + 3) ?nvc = (Inr (None, a + 2, [] @ ?T), ?nvd)"
    using tx by (rule for_lines_texts)
  have s1: "set_lines (nv\<lparr>log := log nv @ [GetLines a e, Call ?l0 (a + 1), Call ?l1 (a + 2)]\<rparr>) a a [t]
              = (Inr (), ?nvc)"
    using assms(1) ae e_len by (simp add: set_lines_ok)
  have fl: "for_lines f (?l0 # ?l1 # ?ls) a [] (a + 1) ?nv1 = (Inr (None, a + 2, ?T), ?nvd)"
    using f0 f1 s1 fl3 by (simp add: algebra_simps)
  note ins = inserted [OF assms(1,2) e_len, of t]
  have ab: "a < b" using ae by simp
  show ?thesis
  proof (cases "a + 2 < e")
    case True
    then have "length ?T \<noteq> 0" using len by simp
    then have ne: "?T \<noteq> []" by (simp del: length_texts)
    have end_eq: "a + 2 + int (length ?T) = e" using len True by simp
    have "e \<le> int (length (buf ?nvd))" using e_len ins(3) by simp
    then have "set_lines ?nvd (a + 2) e ?T
            = (Inr (), \<lparr>buf = take (nat (a + 2)) ?B1 @ ?T @ drop (nat e) ?B1,
                        log = log ?nvd @ [SetLines (a + 2) e ?T]\<rparr>)"
      using assms(1) True by (simp add: set_lines_ok)
    then have s2: "set_lines ?nvd (a + 2) e ?T
            = (Inr (), \<lparr>buf = (take (nat a) ?B @ [t, ?l0]) @ ?T @ drop (nat (e - 1)) ?B,
                        log = log ?nvd @ [SetLines (a + 2) e ?T]\<rparr>)"
      by (simp only: ins(1,2))
    show ?thesis
      using ab e g fl ne end_eq True s2
      by (subst range_loop.simps) (simp add: Let_def del: for_lines.simps min_less_iff_conj)
  next
    case False
    then have e2: "e = a + 2" using assms(2) by simp
    then have "length ?T = 0" using len by simp
    then have emp: "?T = []" by (simp del: length_texts)
    have "nat a < length ?B" using assms(1) ae e_len by linarith
    then have "drop (nat a) ?B = ?l0 # drop (Suc (nat a)) ?B"
      by (simp add: Cons_nth_drop_Suc)
    moreover have "nat (e - 1) = Suc (nat a)" using e2 assms(1) by linarith
    ultimately have b1: "?B1 = take (nat a) ?B @ [t, ?l0] @ ?T @ drop (nat (e - 1)) ?B"
      using emp by simp
    show ?thesis
      using ab e g fl emp False b1
      by (subst range_loop.simps) (simp add: Let_def del: for_lines.simps min_less_iff_conj)
  qed
qed

lemma long_buffer_facts:
  "length long_buffer = 5001" "long_buffer ! 4999 = ''y''" "long_buffer ! 5000 = ''z''"
  by (simp_all add: long_buffer_def nth_append)

text \<open>
  The counter itself does what the claim says: whatever the function returns, the calls
  of one \<open>python_do_range\<close> receive the numbers \<open>start, start + 1, \<dots>\<close> in order,
  across batches, and when the loop ends normally there is one call for each of the lines
  \<open>start\<close> to \<open>stop\<close>.
\<close>

lemma numbers_from_Suc: "numbers_from n (Suc m) = n # numbers_from (n + 1) m"
proof -
  have "[0..<Suc m] = 0 # map Suc [0..<m]"
    by (simp add: upt_conv_Cons map_Suc_upt del: upt_Suc)
  then show ?thesis by (simp add: numbers_from_def comp_def del: upt_Suc)
qed

lemma numbers_from_add: "numbers_from n (m + k) = numbers_from n m @ numbers_from (n + int m) k"
proof (induction m arbitrary: n)
  case 0
  then show ?case by (simp add: numbers_from_def)
next
  case (Suc m)
  have "numbers_from n (Suc m + k) = n # numbers_from (n + 1) (m + k)"
    using numbers_from_Suc [of n "m + k"] by simp
  with Suc [of "n + 1"] show ?case
    by (simp add: numbers_from_Suc algebra_simps)
qed

lemma log_set_lines: "log (snd (set_lines nv a b r)) = log nv @ [SetLines a b r]"
  by (simp add: set_lines_def Let_def)

lemma call_numbers_set_lines [simp]: "call_numbers (snd (set_lines nv a b r)) = call_numbers nv"
  by (simp add: call_numbers_def log_set_lines)

lemma call_numbers_get_lines [simp]: "call_numbers (snd (get_lines nv a b)) = call_numbers nv"
  by (simp add: call_numbers_def get_lines_def Let_def)

lemma call_numbers_Call [simp]:
  "call_numbers (nv\<lparr>log := log nv @ [Call l n]\<rparr>) = call_numbers nv @ [n]"
  by (simp add: call_numbers_def)

lemma for_lines_numbers:
  "\<exists>m \<le> length ls.
     call_numbers (snd (for_lines f ls sstart newlines n nv)) = call_numbers nv @ numbers_from n m
     \<and> (\<forall>c nl. fst (for_lines f ls sstart newlines n nv) = Inr (None, c, nl) \<longrightarrow> m = length ls)"
proof (induction ls arbitrary: sstart newlines n nv)
  case Nil
  show ?case by (intro exI [of _ 0]) (simp add: numbers_from_def)
next
  case (Cons l ls)
  let ?nv0 = "nv\<lparr>log := log nv @ [Call l n]\<rparr>"
  have one: "call_numbers nv @ numbers_from n (Suc 0) = call_numbers nv @ [n]"
    by (simp add: numbers_from_def)
  have more: "call_numbers nv' = call_numbers nv @ [n] \<Longrightarrow>
      call_numbers nv' @ numbers_from (n + 1) m = call_numbers nv @ numbers_from n (Suc m)" for nv' m
    by (simp add: numbers_from_Suc)
  show ?case
  proof (cases "f l n")
    case (Inl e)
    then have "for_lines f (l # ls) sstart newlines n nv = (Inl e, ?nv0)" by simp
    then show ?thesis
      by (intro exI [of _ "Suc 0"]) (simp add: numbers_from_def del: for_lines.simps)
  next
    case (Inr v)
    show ?thesis
    proof (cases "v = PNone \<or> (\<exists>r. v = PStr r)")
      case False
      then have "for_lines f (l # ls) sstart newlines n nv
                   = (Inr (Some (pydo_type_error v), sstart, newlines), ?nv0)"
        using Inr by (cases v) simp_all
      then show ?thesis
        by (intro exI [of _ "Suc 0"]) (simp add: numbers_from_def del: for_lines.simps)
    next
      case True
      then show ?thesis
      proof
        assume v: "v = PNone"
        show ?thesis
        proof (cases "newlines = []")
          case True
          have eq: "for_lines f (l # ls) sstart newlines n nv
                      = for_lines f ls (sstart + int (length newlines) + 1) [] (n + 1) ?nv0"
            using Inr v True by simp
          have c1: "call_numbers ?nv0 = call_numbers nv @ [n]" by simp
          obtain m where m: "m \<le> length ls"
            "call_numbers (snd (for_lines f ls (sstart + int (length newlines) + 1) [] (n + 1) ?nv0))
               = call_numbers ?nv0 @ numbers_from (n + 1) m"
            "\<forall>c nl. fst (for_lines f ls (sstart + int (length newlines) + 1) [] (n + 1) ?nv0) = Inr (None, c, nl)
               \<longrightarrow> m = length ls"
            using Cons.IH by blast
          show ?thesis
            using m more [OF c1] by (intro exI [of _ "Suc m"]) (simp add: eq del: for_lines.simps)
        next
          case False
          obtain res nv1 where
            sl: "set_lines ?nv0 sstart (sstart + int (length newlines) - 1) newlines = (res, nv1)"
            by (cases "set_lines ?nv0 sstart (sstart + int (length newlines) - 1) newlines")
          have c1: "call_numbers nv1 = call_numbers nv @ [n]"
            using call_numbers_set_lines [of ?nv0 sstart "sstart + int (length newlines) - 1" newlines] sl
            by simp
          show ?thesis
          proof (cases res)
            case (Inl e)
            then have "for_lines f (l # ls) sstart newlines n nv = (Inl e, nv1)"
              using Inr v False sl by simp
            then show ?thesis
              using c1 by (intro exI [of _ "Suc 0"]) (simp add: numbers_from_def del: for_lines.simps)
          next
            case (Inr u)
            then have eq: "for_lines f (l # ls) sstart newlines n nv
                        = for_lines f ls (sstart + int (length newlines) + 1) [] (n + 1) nv1"
              using \<open>f l n = Inr v\<close> v False sl by simp
            obtain m where m: "m \<le> length ls"
              "call_numbers (snd (for_lines f ls (sstart + int (length newlines) + 1) [] (n + 1) nv1))
                 = call_numbers nv1 @ numbers_from (n + 1) m"
              "\<forall>c nl. fst (for_lines f ls (sstart + int (length newlines) + 1) [] (n + 1) nv1) = Inr (None, c, nl)
                 \<longrightarrow> m = length ls"
              using Cons.IH by blast
            show ?thesis
              using m more [OF c1] by (intro exI [of _ "Suc m"]) (simp add: eq del: for_lines.simps)
          qed
        qed
      next
        assume "\<exists>r. v = PStr r"
        then obtain r where v: "v = PStr r" by blast
        have eq: "for_lines f (l # ls) sstart newlines n nv
                    = for_lines f ls sstart (newlines @ [r]) (n + 1) ?nv0"
          using Inr v by simp
        have c1: "call_numbers ?nv0 = call_numbers nv @ [n]" by simp
        obtain m where m: "m \<le> length ls"
          "call_numbers (snd (for_lines f ls sstart (newlines @ [r]) (n + 1) ?nv0))
             = call_numbers ?nv0 @ numbers_from (n + 1) m"
          "\<forall>c nl. fst (for_lines f ls sstart (newlines @ [r]) (n + 1) ?nv0) = Inr (None, c, nl)
             \<longrightarrow> m = length ls"
          using Cons.IH by blast
        show ?thesis
          using m more [OF c1] by (intro exI [of _ "Suc m"]) (simp add: eq del: for_lines.simps)
      qed
    qed
  qed
qed

lemma get_lines_Inr:
  assumes "get_lines nv a b = (Inr ls, nv1)"
  shows "0 \<le> a \<and> a \<le> b \<and> b \<le> int (length (buf nv)) \<and> ls = slice (buf nv) a b"
  using assms by (simp add: get_lines_def Let_def slice_def split: if_splits)

lemma range_loop_numbers:
  assumes "0 \<le> a"
  shows "\<exists>m. call_numbers (snd (range_loop f a b nv)) = call_numbers nv @ numbers_from (a + 1) m
             \<and> (fst (range_loop f a b nv) = Inr () \<and> a \<le> b \<longrightarrow> int m = b - a)"
  using assms
proof (induction "nat (b - a)" arbitrary: a nv rule: less_induct)
  case less
  show ?case
  proof (cases "a < b")
    case False
    then have "range_loop f a b nv = (Inr (), nv)" by (rule range_loop_done)
    with False show ?thesis by (intro exI [of _ 0]) (simp add: numbers_from_def)
  next
    case True
    define e where "e = min (a + 5000) b"
    have ae: "a < e" "e \<le> b" using True by (simp_all add: e_def)
    obtain res1 nv1 where g: "get_lines nv a e = (res1, nv1)"
      by (cases "get_lines nv a e")
    have c1: "call_numbers nv1 = call_numbers nv"
      using call_numbers_get_lines [of nv a e] g by simp
    show ?thesis
    proof (cases res1)
      case (Inl x)
      then have "range_loop f a b nv = (Inl x, nv1)"
        using True g e_def by (subst range_loop.simps) (simp add: Let_def del: min_less_iff_conj)
      with c1 show ?thesis by (intro exI [of _ 0]) (simp add: numbers_from_def)
    next
      case (Inr ls)
      with g have "0 \<le> a \<and> a \<le> e \<and> e \<le> int (length (buf nv)) \<and> ls = slice (buf nv) a e"
        by (intro get_lines_Inr) simp
      then have len: "int (length ls) = e - a" by (simp add: length_slice)
      obtain res2 nv2 where fl: "for_lines f ls a [] (a + 1) nv1 = (res2, nv2)"
        by (cases "for_lines f ls a [] (a + 1) nv1")
      obtain m1 where m1: "m1 \<le> length ls"
        "call_numbers nv2 = call_numbers nv1 @ numbers_from (a + 1) m1"
        "\<forall>c nl. res2 = Inr (None, c, nl) \<longrightarrow> m1 = length ls"
        using for_lines_numbers [of ls f a "[]" "a + 1" nv1] fl by auto
      show ?thesis
      proof (cases res2)
        case (Inl x)
        then have "range_loop f a b nv = (Inl x, nv2)"
          using True g e_def Inr fl
          by (subst range_loop.simps) (simp add: Let_def del: min_less_iff_conj for_lines.simps)
        with c1 m1(2) show ?thesis by (intro exI [of _ m1]) simp
      next
        case inr: (Inr triple)
        obtain exc c nl where triple: "triple = (exc, c, nl)" by (cases triple)
        obtain res3 nv3 where
          s3: "(if nl \<noteq> [] then set_lines nv2 c (c + int (length nl)) nl else (Inr (), nv2)) = (res3, nv3)"
          by (cases "if nl \<noteq> [] then set_lines nv2 c (c + int (length nl)) nl else (Inr (), nv2)")
        have "nv3 = (if nl \<noteq> [] then snd (set_lines nv2 c (c + int (length nl)) nl) else nv2)"
          using s3 by (auto split: if_splits)
        then have c3: "call_numbers nv3 = call_numbers nv2"
          by simp
        have unfold: "range_loop f a b nv
                        = (case res3 of Inl x \<Rightarrow> (Inl x, nv3)
                           | Inr u \<Rightarrow> (case exc of Some x \<Rightarrow> (Inl x, nv3)
                                         | None \<Rightarrow> range_loop f e b nv3))"
          using True g e_def Inr fl inr triple s3
          by (subst range_loop.simps)
            (simp add: Let_def del: min_less_iff_conj for_lines.simps cong: sum.case_cong option.case_cong)
        show ?thesis
        proof (cases "res3 = Inr () \<and> exc = None")
          case False
          then have "snd (range_loop f a b nv) = nv3 \<and> fst (range_loop f a b nv) \<noteq> Inr ()"
            using unfold by (auto split: sum.splits option.splits)
          with c1 c3 m1(2) show ?thesis by (intro exI [of _ m1]) simp
        next
          case all: True
          then have rec: "range_loop f a b nv = range_loop f e b nv3"
            using unfold by simp
          have full: "m1 = length ls" using m1(3) inr triple all by simp
          have "nat (b - e) < nat (b - a)" using ae by linarith
          moreover have "0 \<le> e" using ae less.prems by simp
          ultimately obtain m2 where
            m2: "call_numbers (snd (range_loop f e b nv3)) = call_numbers nv3 @ numbers_from (e + 1) m2"
              "fst (range_loop f e b nv3) = Inr () \<and> e \<le> b \<longrightarrow> int m2 = b - e"
            using less.hyps [of e nv3] by blast
          have "a + 1 + int m1 = e + 1" using full len by simp
          then have "numbers_from (a + 1) (m1 + m2) = numbers_from (a + 1) m1 @ numbers_from (e + 1) m2"
            by (simp only: numbers_from_add)
          then have "call_numbers (snd (range_loop f a b nv))
                       = call_numbers nv @ numbers_from (a + 1) (m1 + m2)"
            using rec m2(1) c3 m1(2) c1 by simp
          moreover have "fst (range_loop f a b nv) = Inr () \<and> a \<le> b \<longrightarrow> int (m1 + m2) = b - a"
            using rec m2(2) ae full len by auto
          ultimately show ?thesis by blast
        qed
      qed
    qed
  qed
qed

text \<open>
  Claim C6. The claim asks that what the function receives as the number of a line be
  the position the line had in the untouched range, also after \<open>None\<close> results and in
  later batches. On the 5001 lines of \<open>long_buffer\<close>, with \<open>None\<close> for line 2 and
  every other line returned as it is, the function is called 5001 times and the last call
  receives the number 5001 with the text \<open>y\<close> of line 5000: the flush for line 2 moved
  the lines down by one before the second batch was read. Line 5001, \<open>z\<close>, is never
  passed.
\<close>

theorem later_batch_gets_shifted_line:
  "length (calls (log (host (snd (python_do_range (mini (none_at 2)) (bridge long_buffer) 1 5001
                                      ''return None if linenr == 2 else line''))))) = 5001
   \<and> calls (log (host (snd (python_do_range (mini (none_at 2)) (bridge long_buffer) 1 5001
                                      ''return None if linenr == 2 else line'')))) ! 5000 = (''y'', 5001)
   \<and> long_buffer ! 4999 = ''y'' \<and> long_buffer ! 5000 = ''z''"
proof -
  let ?code = "''return None if linenr == 2 else line''"
  let ?B = "long_buffer"
  let ?f = "py_call (mini (none_at 2)) (PFun (function_def ?code))"
  let ?nv = "\<lparr>buf = ?B, log = []\<rparr>"
  define T where "T = texts ?f (slice ?B 2 5000) 3"
  define lg3 where "lg3 = [GetLines 0 5000, Call (?B ! 0) 1, Call (?B ! 1) 2, SetLines 0 0 [?B ! 0]]
                     @ call_events (slice ?B 2 5000) 3 @ [SetLines 2 5000 T]"
  define P where "P = [?B ! 0, ?B ! 0] @ T"
  define nv3 where "nv3 = \<lparr>buf = P @ drop 4999 ?B, log = lg3\<rparr>"
  have lenB: "length ?B = 5001" by (rule long_buffer_facts)
  have lenS: "length (slice ?B 2 5000) = 4998" using lenB by (simp add: slice_def)
  have lenT: "length T = 4998" using lenS by (simp add: T_def)
  have lenP: "length P = 5000" using lenT by (simp add: P_def)
  have tx: "is_text (?f l k)" if "k \<noteq> 2" for l k
    using that by (simp add: mini_none_at_2)
  have step: "range_loop ?f 0 5001 ?nv = range_loop ?f 5000 5001 nv3"
  proof -
    have "range_loop ?f 0 5001 ?nv = range_loop ?f 5000 5001
            \<lparr>buf = take (nat 0) (buf ?nv) @ [?B ! 0, buf ?nv ! nat 0]
                    @ texts ?f (slice (buf ?nv) (0 + 2) 5000) (0 + 3) @ drop (nat (5000 - 1)) (buf ?nv),
             log = log ?nv @ [GetLines 0 5000, Call (buf ?nv ! nat 0) (0 + 1),
                             Call (buf ?nv ! nat (0 + 1)) (0 + 2), SetLines 0 0 [?B ! 0]]
                     @ call_events (slice (buf ?nv) (0 + 2) 5000) (0 + 3)
                     @ (if (0::int) + 2 < 5000
                        then [SetLines (0 + 2) 5000 (texts ?f (slice (buf ?nv) (0 + 2) 5000) (0 + 3))]
                        else [])\<rparr>"
    proof (rule range_loop_batch_flush)
      show "(0::int) \<le> 0" "(0::int) + 2 \<le> 5000" "(5000::int) = min (0 + 5000) 5001" by simp_all
      show "5001 \<le> int (length (buf ?nv))" using lenB by simp
      show "?f (buf ?nv ! nat 0) (0 + 1) = Inr (PStr (?B ! 0))" by (simp add: mini_none_at_2)
      show "?f (buf ?nv ! nat (0 + 1)) (0 + 2) = Inr PNone" by (simp add: mini_none_at_2)
      show "\<forall>i. 0 + 2 \<le> i \<and> i < 5000 \<longrightarrow> is_text (?f (buf ?nv ! nat i) (i + 1))"
        using tx by simp
    qed
    then show ?thesis by (simp add: nv3_def lg3_def P_def T_def)
  qed
  have len3: "length (buf nv3) = 5002" using lenP lenB by (simp add: nv3_def)
  have "buf nv3 ! 5000 = drop 4999 ?B ! 0"
    using lenP by (simp add: nv3_def nth_append)
  also have "\<dots> = ''y''" using lenB by (simp add: long_buffer_facts)
  finally have y: "buf nv3 ! 5000 = ''y''" .
  have sl: "slice (buf nv3) 5000 5001 = [''y'']"
    using slice_Cons [of 5000 5001 "buf nv3"] len3 y by simp
  have "\<forall>i. 5000 \<le> i \<and> i < 5001 \<longrightarrow> is_text (?f (buf nv3 ! nat i) (i + 1))"
    using tx by simp
  then obtain evs2 where
    r: "range_loop ?f 5000 5001 nv3
          = (Inr (), \<lparr>buf = take (nat 5000) (buf nv3) @ texts ?f (slice (buf nv3) 5000 5001) (5000 + 1)
                              @ drop (nat 5001) (buf nv3),
                      log = log nv3 @ evs2\<rparr>)"
    and cl: "calls evs2 = numbered (slice (buf nv3) 5000 5001) (5000 + 1)"
    using range_loop_texts [of 5000 5001 nv3 ?f] len3 by auto
  have cl2: "calls evs2 = [(''y'', 5001)]" using cl sl by simp
  have c3: "calls lg3 = [(?B ! 0, 1), (?B ! 1, 2)] @ numbered (slice ?B 2 5000) 3"
    by (simp add: lg3_def)
  define C where "C = [(?B ! 0, 1), (?B ! 1, 2)] @ numbered (slice ?B 2 5000) 3"
  have lenC: "length C = 5000" using lenS by (simp add: C_def)
  have all: "calls (lg3 @ evs2) = C @ [(''y'', 5001)]"
    using c3 cl2 by (simp add: C_def)
  have "host (snd (python_do_range (mini (none_at 2)) (bridge ?B) 1 5001 ?code))
          = \<lparr>buf = take (nat 5000) (buf nv3) @ texts ?f (slice (buf nv3) 5000 5001) (5000 + 1)
                    @ drop (nat 5001) (buf nv3),
             log = lg3 @ evs2\<rparr>"
    using step r mini_exec_def_binds [of "none_at 2" ?code "module_dict (bridge ?B)"]
    by (simp add: python_do_range_def set_current_range_def bridge_def nv3_def)
  then have "calls (log (host (snd (python_do_range (mini (none_at 2)) (bridge ?B) 1 5001 ?code))))
               = C @ [(''y'', 5001)]"
    using all by simp
  then show ?thesis
    using lenC by (simp add: long_buffer_facts nth_append)
qed

end
